theory Spec2Isabelle
  imports Main "HOL-Library.AList" "HOL-Library.List_Lexorder" "HOL-Library.Option_ord"
    "HOL-Library.Multiset"
begin

section \<open>Python values\<close>

text \<open>
  A Python \<open>str\<close> is a sequence of Unicode code points; it is modelled as a list of
  natural numbers, so that the reserved marker U+03B5 (the Greek letter epsilon, code
  point 949) is one character, as it is for Python. State names, symbols and outputs are
  all of type \<open>str\<close> in the source.  Iterating over a string yields its one-character
  substrings.
\<close>

type_synonym pystr = "nat list"

definition py :: "string \<Rightarrow> pystr" where
  "py s = map of_char s"

definition EPS :: pystr where
  "EPS = [949]"

definition chars :: "pystr \<Rightarrow> pystr list" where
  "chars w = map (\<lambda>c. [c]) w"

text \<open>
  A Python \<open>set\<close> is modelled as a duplicate-free list in insertion order and a
  \<open>dict\<close> as an association list with distinct keys (Python keeps insertion order
  for dictionaries; for sets the iteration order is not specified and the model fixes
  one).
\<close>

type_synonym 'a pyset = "'a list"

definition set_add :: "'a \<Rightarrow> 'a pyset \<Rightarrow> 'a pyset" where
  "set_add x A = (if x \<in> set A then A else A @ [x])"

definition set_update :: "'a pyset \<Rightarrow> 'a list \<Rightarrow> 'a pyset" where
  "set_update A xs = fold set_add xs A"

definition set_discard :: "'a \<Rightarrow> 'a pyset \<Rightarrow> 'a pyset" where
  "set_discard x A = removeAll x A"

type_synonym ('k, 'v) pydict = "('k \<times> 'v) list"

definition dict_get :: "('k, 'v) pydict \<Rightarrow> 'k \<Rightarrow> 'v option" where
  "dict_get d k = map_of d k"

definition dict_set :: "'k \<Rightarrow> 'v \<Rightarrow> ('k, 'v) pydict \<Rightarrow> ('k, 'v) pydict" where
  "dict_set k v d = AList.update k v d"

definition dict_keys :: "('k, 'v) pydict \<Rightarrow> 'k list" where
  "dict_keys d = map fst d"

text \<open>
  Every exception the modelled code raises explicitly is a \<open>ValueError\<close>; a missing
  dictionary key is a \<open>KeyError\<close>, and \<open>next(iter(s))\<close> on an empty set is a
  \<open>StopIteration\<close>.  Reading an attribute or method that the object's class does not
  define is an \<open>AttributeError\<close>, and a call with a keyword argument that the method
  does not take is a \<open>TypeError\<close>.  \<open>RecursionError\<close> is what a recursive function
  of the model returns when its recursion budget is used up.
\<close>

datatype error =
  ValueError string | KeyError | StopIteration | RecursionError | AttributeError | TypeError

section \<open>models/automaton.py\<close>

record State =
  name :: pystr
  is_accept :: bool
  is_start :: bool

record Transition =
  from_state :: pystr
  to_state :: pystr
  symbol :: pystr
  t_output :: "pystr option"

record automaton =
  states :: "(pystr, State) pydict"
  alphabet :: "pystr pyset"
  start_state :: "pystr option"
  accept_states :: "pystr pyset"
  transitions :: "Transition list"

definition add_state :: "pystr \<Rightarrow> bool \<Rightarrow> bool \<Rightarrow> 'a automaton_scheme \<Rightarrow> 'a automaton_scheme" where
  "add_state n acc st a =
     (let a1 = a\<lparr>states := dict_set n \<lparr>name = n, is_accept = acc, is_start = st\<rparr> (states a)\<rparr>;
          a2 = (if acc then a1\<lparr>accept_states := set_add n (accept_states a1)\<rparr> else a1)
      in if st then a2\<lparr>start_state := Some n\<rparr> else a2)"

definition base_add_transition ::
  "pystr \<Rightarrow> pystr \<Rightarrow> pystr \<Rightarrow> pystr option \<Rightarrow> 'a automaton_scheme \<Rightarrow> 'a automaton_scheme" where
  "base_add_transition f t c out a =
     (let a1 = (if c \<noteq> EPS then a\<lparr>alphabet := set_add c (alphabet a)\<rparr> else a)
      in a1\<lparr>transitions := transitions a1 @
               [\<lparr>from_state = f, to_state = t, symbol = c, t_output = out\<rparr>]\<rparr>)"

definition get_state_count :: "'a automaton_scheme \<Rightarrow> nat" where
  "get_state_count a = length (dict_keys (states a))"

fun check_transitions :: "(pystr, State) pydict \<Rightarrow> Transition list \<Rightarrow> bool \<times> string" where
  "check_transitions S [] = (True, ''Valid'')"
| "check_transitions S (tr # trs) =
     (if from_state tr \<notin> set (dict_keys S) then (False, ''Transition from undefined state'')
      else if to_state tr \<notin> set (dict_keys S) then (False, ''Transition to undefined state'')
      else check_transitions S trs)"

definition base_validate :: "'a automaton_scheme \<Rightarrow> bool \<times> string" where
  "base_validate a =
     (if states a = [] then (False, ''No states defined'')
      else case start_state a of
        None \<Rightarrow> (False, ''No start state defined'')
      | Some s \<Rightarrow>
          if s \<notin> set (dict_keys (states a)) then (False, ''Start state not in states'')
          else check_transitions (states a) (transitions a))"

section \<open>models/dfa.py\<close>

record dfa = automaton +
  dfa_transition_table :: "(pystr \<times> pystr, pystr) pydict"

definition DFA :: dfa where
  "DFA = \<lparr>states = [], alphabet = [], start_state = None, accept_states = [],
          transitions = [], dfa_transition_table = []\<rparr>"

text \<open>
  A method that can raise returns the exception raised (if any) together with the object
  as the call leaves it.
\<close>

definition dfa_add_transition :: "pystr \<Rightarrow> pystr \<Rightarrow> pystr \<Rightarrow> dfa \<Rightarrow> error option \<times> dfa" where
  "dfa_add_transition f t c d =
     (if (f, c) \<in> set (dict_keys (dfa_transition_table d))
      then (Some (ValueError ''DFA transition already exists''), d)
      else let d1 = base_add_transition f t c None d
           in (None, d1\<lparr>dfa_transition_table := dict_set (f, c) t (dfa_transition_table d1)\<rparr>))"

definition get_next_state :: "dfa \<Rightarrow> pystr \<Rightarrow> pystr \<Rightarrow> pystr option" where
  "get_next_state d q c = dict_get (dfa_transition_table d) (q, c)"

fun dfa_walk :: "dfa \<Rightarrow> pystr \<Rightarrow> pystr list \<Rightarrow> bool" where
  "dfa_walk d q [] = (q \<in> set (accept_states d))"
| "dfa_walk d q (c # cs) =
     (case get_next_state d q c of None \<Rightarrow> False | Some q' \<Rightarrow> dfa_walk d q' cs)"

definition dfa_accepts :: "dfa \<Rightarrow> pystr \<Rightarrow> bool" where
  "dfa_accepts d w =
     (case start_state d of None \<Rightarrow> False | Some s \<Rightarrow> dfa_walk d s (chars w))"

fun dfa_steps :: "dfa \<Rightarrow> pystr \<Rightarrow> pystr list \<Rightarrow> (pystr \<times> pystr \<times> pystr) list" where
  "dfa_steps d q [] = []"
| "dfa_steps d q (c # cs) =
     (case get_next_state d q c of
        None \<Rightarrow> [(q, c, py ''REJECT'')]
      | Some q' \<Rightarrow> (q, c, q') # dfa_steps d q' cs)"

definition dfa_simulate_step_by_step :: "dfa \<Rightarrow> pystr \<Rightarrow> (pystr \<times> pystr \<times> pystr) list" where
  "dfa_simulate_step_by_step d w =
     (case start_state d of None \<Rightarrow> [] | Some s \<Rightarrow> dfa_steps d s (chars w))"

fun check_deterministic :: "(pystr \<times> pystr) list \<Rightarrow> Transition list \<Rightarrow> bool \<times> string" where
  "check_deterministic seen [] = (True, ''Valid DFA'')"
| "check_deterministic seen (tr # trs) =
     (if (from_state tr, symbol tr) \<in> set seen then (False, ''Non-deterministic transition'')
      else check_deterministic (set_add (from_state tr, symbol tr) seen) trs)"

definition dfa_validate :: "dfa \<Rightarrow> bool \<times> string" where
  "dfa_validate d =
     (case base_validate d of
        (False, msg) \<Rightarrow> (False, msg)
      | (True, _) \<Rightarrow> check_deterministic [] (transitions d))"

section \<open>models/nfa.py\<close>

record nfa = automaton +
  nfa_transition_table :: "(pystr \<times> pystr, pystr pyset) pydict"

definition NFA :: nfa where
  "NFA = \<lparr>states = [], alphabet = [], start_state = None, accept_states = [],
          transitions = [], nfa_transition_table = []\<rparr>"

definition get_next_states :: "nfa \<Rightarrow> pystr \<Rightarrow> pystr \<Rightarrow> pystr pyset" where
  "get_next_states n q c =
     (case dict_get (nfa_transition_table n) (q, c) of None \<Rightarrow> [] | Some S \<Rightarrow> S)"

definition nfa_add_transition :: "pystr \<Rightarrow> pystr \<Rightarrow> pystr \<Rightarrow> nfa \<Rightarrow> nfa" where
  "nfa_add_transition f t c n =
     (let n1 = base_add_transition f t c None n
      in n1\<lparr>nfa_transition_table :=
              dict_set (f, c) (set_add t (get_next_states n1 f c)) (nfa_transition_table n1)\<rparr>)"

definition move :: "nfa \<Rightarrow> pystr pyset \<Rightarrow> pystr \<Rightarrow> pystr pyset" where
  "move n S c = fold (\<lambda>q acc. set_update acc (get_next_states n q c)) S []"

fun nfa_walk :: "nfa \<Rightarrow> pystr pyset \<Rightarrow> pystr list \<Rightarrow> bool" where
  "nfa_walk n S [] = (\<exists>q \<in> set S. q \<in> set (accept_states n))"
| "nfa_walk n S (c # cs) =
     (let S' = move n S c in if S' = [] then False else nfa_walk n S' cs)"

definition nfa_accepts :: "nfa \<Rightarrow> pystr \<Rightarrow> bool" where
  "nfa_accepts n w =
     (case start_state n of None \<Rightarrow> False | Some s \<Rightarrow> nfa_walk n [s] (chars w))"

fun nfa_steps :: "nfa \<Rightarrow> pystr pyset \<Rightarrow> pystr list \<Rightarrow> (pystr pyset \<times> pystr \<times> pystr pyset) list" where
  "nfa_steps n S [] = []"
| "nfa_steps n S (c # cs) =
     (let S' = move n S c
      in (S, c, S') # (if S' = [] then [] else nfa_steps n S' cs))"

definition nfa_simulate_step_by_step ::
  "nfa \<Rightarrow> pystr \<Rightarrow> (pystr pyset \<times> pystr \<times> pystr pyset) list" where
  "nfa_simulate_step_by_step n w =
     (case start_state n of None \<Rightarrow> [] | Some s \<Rightarrow> nfa_steps n [s] (chars w))"


subsection \<open>EpsilonNFA\<close>

text \<open>
  \<open>EpsilonNFA\<close> adds no field to \<open>NFA\<close>.  Its \<open>epsilon_closure\<close> is a worklist loop
  over a \<open>deque\<close>: the head is taken, and every epsilon-successor not yet in the closure
  is added to the closure and to the back of the queue.
\<close>

definition visit :: "pystr \<Rightarrow> pystr pyset \<times> pystr list \<Rightarrow> pystr pyset \<times> pystr list" where
  "visit nxt = (\<lambda>(closure, todo).
     if nxt \<notin> set closure then (set_add nxt closure, todo @ [nxt]) else (closure, todo))"

definition targets :: "nfa \<Rightarrow> pystr set" where
  "targets n = (\<Union>S \<in> snd ` set (nfa_transition_table n). set S)"

lemma get_next_states_targets: "set (get_next_states n q c) \<subseteq> targets n"
proof -
  have "set S \<subseteq> targets n" if "map_of (nfa_transition_table n) (q, c) = Some S" for S
    using map_of_SomeD [OF that] by (force simp: targets_def)
  then show ?thesis
    by (cases "map_of (nfa_transition_table n) (q, c)")
       (simp_all add: get_next_states_def dict_get_def)
qed

lemma finite_targets: "finite (targets n)"
  by (simp add: targets_def)

lemma fold_visit_known:
  "set xs \<subseteq> set closure \<Longrightarrow> fold visit xs (closure, todo) = (closure, todo)"
  by (induction xs) (auto simp: visit_def)

lemma fold_visit_closure:
  "set (fst (fold visit xs (closure, todo))) = set closure \<union> set xs"
  by (induction xs arbitrary: closure todo) (auto simp: visit_def set_add_def)

lemma fold_visit_decreases:
  assumes "fold visit xs (closure, todo) = (closure', todo')" and "set xs \<subseteq> T" and "finite T"
  shows "(closure', todo') = (closure, todo) \<or> card (T - set closure') < card (T - set closure)"
proof (cases "set xs \<subseteq> set closure")
  case True
  with assms(1) show ?thesis by (simp add: fold_visit_known)
next
  case False
  then obtain x where x: "x \<in> set xs" "x \<notin> set closure" by blast
  have c': "set closure' = set closure \<union> set xs"
    using fold_visit_closure [of xs closure todo] assms(1) by simp
  have "T - set closure' \<subset> T - set closure"
    using x assms(2) c' by blast
  then show ?thesis
    using assms(3) by (simp add: psubset_card_mono)
qed

function epsilon_closure_loop :: "nfa \<Rightarrow> pystr pyset \<Rightarrow> pystr list \<Rightarrow> pystr pyset" where
  "epsilon_closure_loop n closure [] = closure"
| "epsilon_closure_loop n closure (q # queue) =
     (case fold visit (get_next_states n q EPS) (closure, queue) of
        (closure', queue') \<Rightarrow> epsilon_closure_loop n closure' queue')"
  by pat_completeness auto
termination
proof (relation "inv_image (less_than <*lex*> less_than)
                   (\<lambda>(n, closure, queue). (card (targets n - set closure), length queue))",
       goal_cases)
  case 1
  show ?case by (intro wf_inv_image wf_lex_prod wf_less_than)
next
  case (2 n closure q queue closure' queue')
  then have "fold visit (get_next_states n q EPS) (closure, queue) = (closure', queue')"
    by simp
  from fold_visit_decreases [OF this get_next_states_targets finite_targets]
  show ?case by auto
qed

definition enfa_epsilon_closure :: "nfa \<Rightarrow> pystr pyset \<Rightarrow> pystr pyset" where
  "enfa_epsilon_closure n S = epsilon_closure_loop n S S"

fun enfa_walk :: "nfa \<Rightarrow> pystr pyset \<Rightarrow> pystr list \<Rightarrow> bool" where
  "enfa_walk n S [] = (\<exists>q \<in> set S. q \<in> set (accept_states n))"
| "enfa_walk n S (c # cs) =
     (let S' = move n S c
      in if S' = [] then False else enfa_walk n (enfa_epsilon_closure n S') cs)"

definition enfa_accepts :: "nfa \<Rightarrow> pystr \<Rightarrow> bool" where
  "enfa_accepts n w =
     (case start_state n of
        None \<Rightarrow> False
      | Some s \<Rightarrow> enfa_walk n (enfa_epsilon_closure n [s]) (chars w))"

fun enfa_steps :: "nfa \<Rightarrow> pystr pyset \<Rightarrow> pystr list \<Rightarrow> (pystr pyset \<times> pystr \<times> pystr pyset) list" where
  "enfa_steps n S [] = []"
| "enfa_steps n S (c # cs) =
     (let S' = enfa_epsilon_closure n (move n S c)
      in (S, c, S') # (if S' = [] then [] else enfa_steps n S' cs))"

definition enfa_simulate_step_by_step ::
  "nfa \<Rightarrow> pystr \<Rightarrow> (pystr pyset \<times> pystr \<times> pystr pyset) list" where
  "enfa_simulate_step_by_step n w =
     (case start_state n of
        None \<Rightarrow> []
      | Some s \<Rightarrow> enfa_steps n (enfa_epsilon_closure n [s]) (chars w))"

section \<open>models/mealy_moore.py\<close>

record mealy = automaton +
  mealy_output_alphabet :: "pystr pyset"
  mealy_transition_table :: "(pystr \<times> pystr, pystr \<times> pystr) pydict"

definition MealyMachine :: mealy where
  "MealyMachine = \<lparr>states = [], alphabet = [], start_state = None, accept_states = [],
     transitions = [], mealy_output_alphabet = [], mealy_transition_table = []\<rparr>"

definition mealy_add_transition ::
  "pystr \<Rightarrow> pystr \<Rightarrow> pystr \<Rightarrow> pystr option \<Rightarrow> mealy \<Rightarrow> error option \<times> mealy" where
  "mealy_add_transition f t c out m =
     (case out of
        None \<Rightarrow> (Some (ValueError ''Mealy machine transitions must have output''), m)
      | Some out' \<Rightarrow>
          let m1 = base_add_transition f t c out m;
              m2 = m1\<lparr>mealy_transition_table :=
                        dict_set (f, c) (t, out') (mealy_transition_table m1)\<rparr>
          in (None, m2\<lparr>mealy_output_alphabet := set_add out' (mealy_output_alphabet m2)\<rparr>))"

definition get_next_state_and_output :: "mealy \<Rightarrow> pystr \<Rightarrow> pystr \<Rightarrow> (pystr \<times> pystr) option" where
  "get_next_state_and_output m q c = dict_get (mealy_transition_table m) (q, c)"

fun mealy_walk :: "mealy \<Rightarrow> pystr \<Rightarrow> pystr list \<Rightarrow> pystr list \<Rightarrow> bool \<times> pystr list" where
  "mealy_walk m q outputs [] = (True, outputs)"
| "mealy_walk m q outputs (c # cs) =
     (case get_next_state_and_output m q c of
        None \<Rightarrow> (False, outputs)
      | Some (q', out) \<Rightarrow> mealy_walk m q' (outputs @ [out]) cs)"

definition mealy_process_input :: "mealy \<Rightarrow> pystr \<Rightarrow> bool \<times> pystr list" where
  "mealy_process_input m w =
     (case start_state m of None \<Rightarrow> (False, []) | Some s \<Rightarrow> mealy_walk m s [] (chars w))"

fun mealy_steps :: "mealy \<Rightarrow> pystr \<Rightarrow> pystr list \<Rightarrow> (pystr \<times> pystr \<times> pystr \<times> pystr) list" where
  "mealy_steps m q [] = []"
| "mealy_steps m q (c # cs) =
     (case get_next_state_and_output m q c of
        None \<Rightarrow> [(q, c, py ''ERROR'', py ''ERROR'')]
      | Some (q', out) \<Rightarrow> (q, c, out, q') # mealy_steps m q' cs)"

definition mealy_simulate_step_by_step ::
  "mealy \<Rightarrow> pystr \<Rightarrow> (pystr \<times> pystr \<times> pystr \<times> pystr) list" where
  "mealy_simulate_step_by_step m w =
     (case start_state m of None \<Rightarrow> [] | Some s \<Rightarrow> mealy_steps m s (chars w))"

definition mealy_accepts :: "mealy \<Rightarrow> pystr \<Rightarrow> bool" where
  "mealy_accepts m w = fst (mealy_process_input m w)"

record moore = automaton +
  moore_output_alphabet :: "pystr pyset"
  state_outputs :: "(pystr, pystr) pydict"
  moore_transition_table :: "(pystr \<times> pystr, pystr) pydict"

definition MooreMachine :: moore where
  "MooreMachine = \<lparr>states = [], alphabet = [], start_state = None, accept_states = [],
     transitions = [], moore_output_alphabet = [], state_outputs = [],
     moore_transition_table = []\<rparr>"

definition set_state_output :: "pystr \<Rightarrow> pystr \<Rightarrow> moore \<Rightarrow> error option \<times> moore" where
  "set_state_output q out m =
     (if q \<notin> set (dict_keys (states m)) then (Some (ValueError ''State does not exist''), m)
      else let m1 = m\<lparr>state_outputs := dict_set q out (state_outputs m)\<rparr>
           in (None, m1\<lparr>moore_output_alphabet := set_add out (moore_output_alphabet m1)\<rparr>))"

definition moore_add_transition :: "pystr \<Rightarrow> pystr \<Rightarrow> pystr \<Rightarrow> moore \<Rightarrow> moore" where
  "moore_add_transition f t c m =
     (let m1 = base_add_transition f t c None m
      in m1\<lparr>moore_transition_table := dict_set (f, c) t (moore_transition_table m1)\<rparr>)"

definition moore_get_next_state :: "moore \<Rightarrow> pystr \<Rightarrow> pystr \<Rightarrow> pystr option" where
  "moore_get_next_state m q c = dict_get (moore_transition_table m) (q, c)"

definition state_output_or_empty :: "moore \<Rightarrow> pystr \<Rightarrow> pystr" where
  "state_output_or_empty m q = (case dict_get (state_outputs m) q of None \<Rightarrow> [] | Some out \<Rightarrow> out)"

fun moore_walk :: "moore \<Rightarrow> pystr \<Rightarrow> pystr list \<Rightarrow> pystr list \<Rightarrow> bool \<times> pystr list" where
  "moore_walk m q outputs [] = (True, outputs)"
| "moore_walk m q outputs (c # cs) =
     (case moore_get_next_state m q c of
        None \<Rightarrow> (False, outputs)
      | Some q' \<Rightarrow> moore_walk m q' (outputs @ [state_output_or_empty m q']) cs)"

definition moore_process_input :: "moore \<Rightarrow> pystr \<Rightarrow> bool \<times> pystr list" where
  "moore_process_input m w =
     (case start_state m of
        None \<Rightarrow> (False, [])
      | Some s \<Rightarrow> moore_walk m s [state_output_or_empty m s] (chars w))"

fun moore_steps :: "moore \<Rightarrow> pystr \<Rightarrow> pystr list \<Rightarrow> (pystr \<times> pystr \<times> pystr \<times> pystr) list" where
  "moore_steps m q [] = []"
| "moore_steps m q (c # cs) =
     (case moore_get_next_state m q c of
        None \<Rightarrow> [(q, c, py ''ERROR'', py ''ERROR'')]
      | Some q' \<Rightarrow> (q, c, q', state_output_or_empty m q') # moore_steps m q' cs)"

definition moore_simulate_step_by_step ::
  "moore \<Rightarrow> pystr \<Rightarrow> (pystr \<times> pystr \<times> pystr \<times> pystr) list" where
  "moore_simulate_step_by_step m w =
     (case start_state m of None \<Rightarrow> [] | Some s \<Rightarrow> moore_steps m s (chars w))"

definition moore_accepts :: "moore \<Rightarrow> pystr \<Rightarrow> bool" where
  "moore_accepts m w = fst (moore_process_input m w)"


section \<open>models/pda.py\<close>

record PDATransition =
  pda_from_state :: pystr
  pda_to_state :: pystr
  input_symbol :: pystr
  stack_pop :: pystr
  stack_push :: "pystr list"

record PDAConfiguration =
  state :: pystr
  remaining_input :: pystr
  stack :: "pystr list"

record pda = automaton +
  stack_alphabet :: "pystr pyset"
  start_stack_symbol :: pystr
  pda_transitions :: "PDATransition list"

definition PDA :: pda where
  "PDA = \<lparr>states = [], alphabet = [], start_state = None, accept_states = [],
          transitions = [], stack_alphabet = [], start_stack_symbol = py ''Z'',
          pda_transitions = []\<rparr>"

definition add_pda_transition ::
  "pystr \<Rightarrow> pystr \<Rightarrow> pystr \<Rightarrow> pystr \<Rightarrow> pystr list \<Rightarrow> pda \<Rightarrow> pda" where
  "add_pda_transition f t inp pop push P =
     (let P1 = P\<lparr>stack_alphabet := set_add pop (stack_alphabet P)\<rparr>;
          P2 = P1\<lparr>stack_alphabet := set_update (stack_alphabet P1) (filter (\<lambda>x. x \<noteq> EPS) push)\<rparr>;
          P3 = (if inp \<noteq> EPS then P2\<lparr>alphabet := set_add inp (alphabet P2)\<rparr> else P2);
          P4 = P3\<lparr>pda_transitions := pda_transitions P3 @
                 [\<lparr>pda_from_state = f, pda_to_state = t, input_symbol = inp,
                   stack_pop = pop, stack_push = push\<rparr>]\<rparr>;
          label = inp @ py '','' @ pop @ py ''/'' @ (if push \<noteq> [] then concat push else EPS)
      in base_add_transition f t label None P4)"

definition get_applicable_transitions ::
  "pda \<Rightarrow> pystr \<Rightarrow> pystr option \<Rightarrow> pystr option \<Rightarrow> PDATransition list" where
  "get_applicable_transitions P q inp stack_top =
     filter (\<lambda>tr.
        pda_from_state tr = q \<and>
        (case stack_top of None \<Rightarrow> False | Some tp \<Rightarrow> stack_pop tr = tp) \<and>
        (Some (input_symbol tr) = inp \<or> input_symbol tr = EPS))
       (pda_transitions P)"

definition current_symbol :: "PDAConfiguration \<Rightarrow> pystr option" where
  "current_symbol config =
     (case remaining_input config of [] \<Rightarrow> None | c # _ \<Rightarrow> Some [c])"

definition stack_top :: "PDAConfiguration \<Rightarrow> pystr option" where
  "stack_top config = (case stack config of [] \<Rightarrow> None | tp # _ \<Rightarrow> Some tp)"

text \<open>
  The body of the loop over the applicable transitions: pop, push the symbols other than
  the epsilon marker (in reverse, each at the front), and consume one input character
  unless the transition is an epsilon one.
\<close>

definition apply_transition :: "PDAConfiguration \<Rightarrow> PDATransition \<Rightarrow> PDAConfiguration" where
  "apply_transition config tr =
     (let new_stack = fold (\<lambda>sym st. if sym \<noteq> EPS then sym # st else st)
                        (rev (stack_push tr)) (drop 1 (stack config));
          new_input = (if input_symbol tr \<noteq> EPS \<and> remaining_input config \<noteq> []
                       then drop 1 (remaining_input config) else remaining_input config)
      in \<lparr>state = pda_to_state tr, remaining_input = new_input, stack = new_stack\<rparr>)"

definition is_accepting :: "pda \<Rightarrow> PDAConfiguration \<Rightarrow> bool" where
  "is_accepting P config \<longleftrightarrow> state config \<in> set (accept_states P) \<and> remaining_input config = []"

text \<open>
  \<open>PDA.accepts\<close> is a breadth-first search with no bound; it may not return, so the
  loop is a partial function and \<open>None\<close> stands for a search that runs forever.
\<close>

partial_function (option) pda_search ::
  "pda \<Rightarrow> PDAConfiguration list \<Rightarrow> (pystr \<times> pystr \<times> pystr list) pyset \<Rightarrow> bool option" where
  "pda_search P queue visited =
     (case queue of
        [] \<Rightarrow> Some False
      | config # rest \<Rightarrow>
          if (state config, remaining_input config, stack config) \<in> set visited
          then pda_search P rest visited
          else if is_accepting P config then Some True
          else if stack_top config = None
          then pda_search P rest
                 (set_add (state config, remaining_input config, stack config) visited)
          else pda_search P
                 (rest @ map (apply_transition config)
                    (get_applicable_transitions P (state config) (current_symbol config)
                       (stack_top config)))
                 (set_add (state config, remaining_input config, stack config) visited))"

definition initial_config :: "pda \<Rightarrow> pystr \<Rightarrow> pystr \<Rightarrow> PDAConfiguration" where
  "initial_config P s w = \<lparr>state = s, remaining_input = w, stack = [start_stack_symbol P]\<rparr>"

definition pda_accepts :: "pda \<Rightarrow> pystr \<Rightarrow> bool option" where
  "pda_accepts P w =
     (case start_state P of
        None \<Rightarrow> Some False
      | Some s \<Rightarrow> pda_search P [initial_config P s w] [])"

fun pda_path ::
  "pda \<Rightarrow> nat \<Rightarrow> PDAConfiguration \<Rightarrow> (PDAConfiguration \<times> PDATransition option) list" where
  "pda_path P 0 config = []"
| "pda_path P (Suc k) config =
     (if is_accepting P config then []
      else if stack_top config = None then []
      else case get_applicable_transitions P (state config) (current_symbol config)
                  (stack_top config) of
             [] \<Rightarrow> []
           | tr # _ \<Rightarrow>
               (apply_transition config tr, Some tr)
                 # pda_path P k (apply_transition config tr))"

text \<open>
  \<open>max_steps\<close> is a Python \<open>int\<close>; \<open>range(max_steps)\<close> is empty when it is zero or
  negative, so the loop body runs \<open>nat max_steps\<close> times at most.
\<close>

definition pda_simulate_step_by_step ::
  "pda \<Rightarrow> pystr \<Rightarrow> int \<Rightarrow> (PDAConfiguration \<times> PDATransition option) list" where
  "pda_simulate_step_by_step P w max_steps =
     (case start_state P of
        None \<Rightarrow> []
      | Some s \<Rightarrow>
          (initial_config P s w, None) # pda_path P (nat max_steps) (initial_config P s w))"

section \<open>algorithms/regex_parser.py\<close>

datatype RegexNode =
    CHARACTER pystr
  | EPSILON
  | CONCAT RegexNode RegexNode
  | OR RegexNode RegexNode
  | STAR RegexNode
  | PLUS RegexNode

definition ch_lparen :: nat where "ch_lparen = 40"
definition ch_rparen :: nat where "ch_rparen = 41"
definition ch_star :: nat where "ch_star = 42"
definition ch_plus :: nat where "ch_plus = 43"
definition ch_bar :: nat where "ch_bar = 124"
definition ch_space :: nat where "ch_space = 32"
definition ch_backslash :: nat where "ch_backslash = 92"
definition ch_e :: nat where "ch_e = 101"
definition ch_epsilon :: nat where "ch_epsilon = 949"

lemmas regex_chars = ch_lparen_def ch_rparen_def ch_star_def ch_plus_def ch_bar_def
  ch_space_def ch_backslash_def ch_e_def ch_epsilon_def

text \<open>
  The parser keeps the string and a cursor; the model passes the part of the string from
  the cursor on, so \<open>peek\<close> is the head of the list and \<open>consume\<close> drops it.  Each
  method returns the node and the rest of the input, or the exception.  The methods call
  one another recursively, and their loops continue after a nested call has moved the
  cursor; the first argument bounds the depth of these calls.
\<close>

fun star_loop :: "RegexNode \<Rightarrow> pystr \<Rightarrow> RegexNode \<times> pystr" where
  "star_loop node [] = (node, [])"
| "star_loop node (c # cs) =
     (if c = ch_star then star_loop (STAR node) cs
      else if c = ch_plus then star_loop (PLUS node) cs
      else (node, c # cs))"

definition concat_tree :: "RegexNode list \<Rightarrow> RegexNode" where
  "concat_tree nodes = (case nodes of [] \<Rightarrow> EPSILON | x # xs \<Rightarrow> foldl CONCAT x xs)"

function (sequential) parse_or :: "nat \<Rightarrow> pystr \<Rightarrow> error + RegexNode \<times> pystr"
and parse_or_loop :: "nat \<Rightarrow> RegexNode \<Rightarrow> pystr \<Rightarrow> error + RegexNode \<times> pystr"
and parse_concat :: "nat \<Rightarrow> pystr \<Rightarrow> error + RegexNode \<times> pystr"
and parse_concat_loop :: "nat \<Rightarrow> RegexNode list \<Rightarrow> pystr \<Rightarrow> error + RegexNode list \<times> pystr"
and parse_star :: "nat \<Rightarrow> pystr \<Rightarrow> error + RegexNode \<times> pystr"
and parse_base :: "nat \<Rightarrow> pystr \<Rightarrow> error + RegexNode \<times> pystr"
where
  "parse_or 0 cs = Inl RecursionError"
| "parse_or (Suc n) cs =
     (case parse_concat n cs of
        Inl e \<Rightarrow> Inl e
      | Inr (left, rest) \<Rightarrow> parse_or_loop n left rest)"
| "parse_or_loop 0 left cs = Inl RecursionError"
| "parse_or_loop (Suc n) left [] = Inr (left, [])"
| "parse_or_loop (Suc n) left (c # cs) =
     (if c = ch_bar then
        (case parse_concat n cs of
           Inl e \<Rightarrow> Inl e
         | Inr (right, rest) \<Rightarrow> parse_or_loop n (OR left right) rest)
      else Inr (left, c # cs))"
| "parse_concat 0 cs = Inl RecursionError"
| "parse_concat (Suc n) cs =
     (case parse_concat_loop n [] cs of
        Inl e \<Rightarrow> Inl e
      | Inr (nodes, rest) \<Rightarrow> Inr (concat_tree nodes, rest))"
| "parse_concat_loop 0 nodes cs = Inl RecursionError"
| "parse_concat_loop (Suc n) nodes [] = Inr (nodes, [])"
| "parse_concat_loop (Suc n) nodes (c # cs) =
     (if c = ch_rparen \<or> c = ch_bar then Inr (nodes, c # cs)
      else case parse_star n (c # cs) of
             Inl e \<Rightarrow> Inl e
           | Inr (node, rest) \<Rightarrow> parse_concat_loop n (nodes @ [node]) rest)"
| "parse_star 0 cs = Inl RecursionError"
| "parse_star (Suc n) cs =
     (case parse_base n cs of
        Inl e \<Rightarrow> Inl e
      | Inr (node, rest) \<Rightarrow> Inr (star_loop node rest))"
| "parse_base 0 cs = Inl RecursionError"
| "parse_base (Suc n) [] = Inl (ValueError ''Unexpected character'')"
| "parse_base (Suc n) (c # cs) =
     (if c = ch_lparen then
        (case parse_or n cs of
           Inl e \<Rightarrow> Inl e
         | Inr (node, rest) \<Rightarrow>
             (case rest of
                [] \<Rightarrow> Inl (ValueError ''Expected )'')
              | c' # rest' \<Rightarrow>
                  if c' = ch_rparen then Inr (node, rest')
                  else Inl (ValueError ''Expected )'')))
      else if c = ch_epsilon \<or> (c = ch_backslash \<and> cs \<noteq> [] \<and> hd cs = ch_e) then
        (if c = ch_backslash then Inr (EPSILON, drop 1 cs) else Inr (EPSILON, cs))
      else if c \<noteq> ch_rparen \<and> c \<noteq> ch_bar \<and> c \<noteq> ch_star \<and> c \<noteq> ch_plus
      then Inr (CHARACTER [c], cs)
      else Inl (ValueError ''Unexpected character''))"
  by pat_completeness auto
termination
  by (relation "measure (\<lambda>x. case x of
        Inl (Inl (n, _)) \<Rightarrow> n | Inl (Inr (Inl (n, _))) \<Rightarrow> n | Inl (Inr (Inr (n, _))) \<Rightarrow> n
      | Inr (Inl (n, _)) \<Rightarrow> n | Inr (Inr (Inl (n, _))) \<Rightarrow> n | Inr (Inr (Inr (n, _))) \<Rightarrow> n)") auto

definition strip_spaces :: "pystr \<Rightarrow> pystr" where
  "strip_spaces regex = filter (\<lambda>c. c \<noteq> ch_space) regex"

definition parse_budget :: "pystr \<Rightarrow> nat" where
  "parse_budget cs = 6 * length cs + 6"

definition parse_regex :: "pystr \<Rightarrow> error + RegexNode" where
  "parse_regex regex =
     (if regex = [] then Inr EPSILON
      else case parse_or (parse_budget (strip_spaces regex)) (strip_spaces regex) of
             Inl e \<Rightarrow> Inl e
           | Inr (node, _) \<Rightarrow> Inr node)"

section \<open>Construction-time failures\<close>

lemma dict_set_key: "k \<in> set (dict_keys (dict_set k v d))"
  by (simp add: dict_keys_def dict_set_def AList.dom_update)

lemma dict_get_set: "dict_get (dict_set k v d) k' = (if k' = k then Some v else dict_get d k')"
  by (simp add: dict_get_def dict_set_def AList.update_conv')

text \<open>
  C8.  \<open>DFA.add_transition\<close> raises when the key \<open>(from_state, symbol)\<close> is already in
  the transition table, and \<open>MooreMachine.set_state_output\<close> raises when the state is not
  in \<open>states\<close>; in both cases the object the call leaves behind is the object it was
  given.  In particular a second \<open>add_transition\<close> for a key raises and the first
  target stays in the table.
\<close>

theorem construction_failures_leave_automaton_unchanged:
  "((f, c) \<in> set (dict_keys (dfa_transition_table d)) \<longrightarrow>
      dfa_add_transition f t c d = (Some (ValueError ''DFA transition already exists''), d))
   \<and> (dfa_add_transition f t c d = (None, d1) \<longrightarrow>
        dfa_add_transition f t' c d1 = (Some (ValueError ''DFA transition already exists''), d1)
        \<and> get_next_state d1 f c = Some t)
   \<and> (q \<notin> set (dict_keys (states m)) \<longrightarrow>
        set_state_output q out m = (Some (ValueError ''State does not exist''), m))"
  by (auto simp: dfa_add_transition_def set_state_output_def base_add_transition_def Let_def
        get_next_state_def dict_set_key dict_get_set split: if_splits)

theorem construction_failures_witness:
  "dfa_add_transition (py ''q0'') (py ''q1'') (py ''a'') DFA
     = (None, snd (dfa_add_transition (py ''q0'') (py ''q1'') (py ''a'') DFA))
   \<and> dfa_add_transition (py ''q0'') (py ''q2'') (py ''a'')
        (snd (dfa_add_transition (py ''q0'') (py ''q1'') (py ''a'') DFA))
     = (Some (ValueError ''DFA transition already exists''),
        snd (dfa_add_transition (py ''q0'') (py ''q1'') (py ''a'') DFA))
   \<and> get_next_state (snd (dfa_add_transition (py ''q0'') (py ''q1'') (py ''a'') DFA))
        (py ''q0'') (py ''a'') = Some (py ''q1'')
   \<and> py ''A'' \<notin> set (dict_keys (states MooreMachine))
   \<and> set_state_output (py ''A'') (py ''x'') MooreMachine
       = (Some (ValueError ''State does not exist''), MooreMachine)"
proof -
  let ?d1 = "snd (dfa_add_transition (py ''q0'') (py ''q1'') (py ''a'') DFA)"
  have ok: "dfa_add_transition (py ''q0'') (py ''q1'') (py ''a'') DFA = (None, ?d1)"
    by (simp add: dfa_add_transition_def DFA_def dict_keys_def Let_def)
  have unknown: "py ''A'' \<notin> set (dict_keys (states MooreMachine))"
    by (simp add: MooreMachine_def dict_keys_def)
  show ?thesis
    using construction_failures_leave_automaton_unchanged
            [of "py ''q0''" "py ''a''" DFA "py ''q1''" ?d1 "py ''q2''" "py ''A''" MooreMachine
                "py ''x''"]
          ok unknown
    by simp
qed

section \<open>Automata without a start state\<close>

text \<open>
  C10.  For each of the six kinds, when \<open>start_state\<close> is \<open>None\<close>: \<open>accepts\<close> returns
  \<open>False\<close> (the PDA search returns, with \<open>False\<close>), \<open>process_input\<close> returns
  \<open>(False, [])\<close>, and \<open>simulate_step_by_step\<close> returns the empty list.  No call raises.
\<close>

theorem no_start_state_rejects:
  assumes "start_state d = None" and "start_state n = None" and "start_state e = None"
    and "start_state P = None" and "start_state ml = None" and "start_state mo = None"
  shows "dfa_accepts d w = False \<and> dfa_simulate_step_by_step d w = []
       \<and> nfa_accepts n w = False \<and> nfa_simulate_step_by_step n w = []
       \<and> enfa_accepts e w = False \<and> enfa_simulate_step_by_step e w = []
       \<and> pda_accepts P w = Some False \<and> pda_simulate_step_by_step P w k = []
       \<and> mealy_accepts ml w = False \<and> mealy_process_input ml w = (False, [])
       \<and> mealy_simulate_step_by_step ml w = []
       \<and> moore_accepts mo w = False \<and> moore_process_input mo w = (False, [])
       \<and> moore_simulate_step_by_step mo w = []"
  using assms
  by (simp add: dfa_accepts_def dfa_simulate_step_by_step_def nfa_accepts_def
        nfa_simulate_step_by_step_def enfa_accepts_def enfa_simulate_step_by_step_def
        pda_accepts_def pda_simulate_step_by_step_def mealy_accepts_def
        mealy_process_input_def mealy_simulate_step_by_step_def moore_accepts_def
        moore_process_input_def moore_simulate_step_by_step_def)

theorem no_start_state_rejects_witness:
  "start_state DFA = None \<and> start_state NFA = None \<and> start_state PDA = None
   \<and> start_state MealyMachine = None \<and> start_state MooreMachine = None
   \<and> dfa_accepts DFA (py ''ab'') = False \<and> dfa_simulate_step_by_step DFA (py ''ab'') = []
   \<and> nfa_accepts NFA (py ''ab'') = False \<and> nfa_simulate_step_by_step NFA (py ''ab'') = []
   \<and> enfa_accepts NFA (py ''ab'') = False \<and> enfa_simulate_step_by_step NFA (py ''ab'') = []
   \<and> pda_accepts PDA (py ''ab'') = Some False
   \<and> pda_simulate_step_by_step PDA (py ''ab'') 100 = []
   \<and> mealy_accepts MealyMachine (py ''ab'') = False
   \<and> mealy_process_input MealyMachine (py ''ab'') = (False, [])
   \<and> mealy_simulate_step_by_step MealyMachine (py ''ab'') = []
   \<and> moore_accepts MooreMachine (py ''ab'') = False
   \<and> moore_process_input MooreMachine (py ''ab'') = (False, [])
   \<and> moore_simulate_step_by_step MooreMachine (py ''ab'') = []"
proof -
  have h: "start_state DFA = None" "start_state NFA = None" "start_state PDA = None"
    "start_state MealyMachine = None" "start_state MooreMachine = None"
    by (simp_all add: DFA_def NFA_def PDA_def MealyMachine_def MooreMachine_def)
  show ?thesis
    using no_start_state_rejects [OF h(1) h(2) h(2) h(3) h(4) h(5), of "py ''ab''" 100] h
    by simp
qed

section \<open>The regex parser: syntax errors and trailing text\<close>

lemma star_loop_length: "star_loop node cs = (v, rest) \<Longrightarrow> length rest \<le> length cs"
  by (induction node cs rule: star_loop.induct) (auto split: if_splits)

lemmas parse_induct =
  parse_or_parse_or_loop_parse_concat_parse_concat_loop_parse_star_parse_base.induct

lemma parse_enough_budget:
  "6 * length cs + 6 \<le> n \<Longrightarrow> parse_or n cs \<noteq> Inl RecursionError \<and>
     (\<forall>v rest. parse_or n cs = Inr (v, rest) \<longrightarrow> length rest \<le> length cs)"
  "6 * length cs + 5 \<le> n \<Longrightarrow> parse_or_loop n left cs \<noteq> Inl RecursionError \<and>
     (\<forall>v rest. parse_or_loop n left cs = Inr (v, rest) \<longrightarrow> length rest \<le> length cs)"
  "6 * length cs + 4 \<le> n \<Longrightarrow> parse_concat n cs \<noteq> Inl RecursionError \<and>
     (\<forall>v rest. parse_concat n cs = Inr (v, rest) \<longrightarrow> length rest \<le> length cs)"
  "6 * length cs + 3 \<le> n \<Longrightarrow> parse_concat_loop n nodes cs \<noteq> Inl RecursionError \<and>
     (\<forall>v rest. parse_concat_loop n nodes cs = Inr (v, rest) \<longrightarrow> length rest \<le> length cs)"
  "6 * length cs + 2 \<le> n \<Longrightarrow> parse_star n cs \<noteq> Inl RecursionError \<and>
     (\<forall>v rest. parse_star n cs = Inr (v, rest) \<longrightarrow> length rest < length cs)"
  "6 * length cs + 1 \<le> n \<Longrightarrow> parse_base n cs \<noteq> Inl RecursionError \<and>
     (\<forall>v rest. parse_base n cs = Inr (v, rest) \<longrightarrow> length rest < length cs)"
proof (induction n cs and n left cs and n cs and n nodes cs and n cs and n cs rule: parse_induct)
  case (2 n cs)
  then show ?case
    by (auto split: sum.splits prod.splits) fastforce+
next
  case (5 n left c cs)
  then show ?case 
    by (auto split: sum.splits prod.splits) fastforce+
next
  case (7 n cs)
  then show ?case by (auto split: sum.splits prod.splits)
next
  case (10 n nodes c cs)
  then show ?case by (auto split: sum.splits prod.splits) fastforce+
next
  case (12 n cs)
  then show ?case by (auto split: sum.splits prod.splits dest: star_loop_length) 
next
  case (15 n c cs)
  then show ?case by (auto split: sum.splits prod.splits list.splits) 
qed auto


lemma parse_more_budget:
  "parse_or n cs \<noteq> Inl RecursionError \<Longrightarrow> parse_or (n + k) cs = parse_or n cs"
  "parse_or_loop n left cs \<noteq> Inl RecursionError \<Longrightarrow>
     parse_or_loop (n + k) left cs = parse_or_loop n left cs"
  "parse_concat n cs \<noteq> Inl RecursionError \<Longrightarrow> parse_concat (n + k) cs = parse_concat n cs"
  "parse_concat_loop n nodes cs \<noteq> Inl RecursionError \<Longrightarrow>
     parse_concat_loop (n + k) nodes cs = parse_concat_loop n nodes cs"
  "parse_star n cs \<noteq> Inl RecursionError \<Longrightarrow> parse_star (n + k) cs = parse_star n cs"
  "parse_base n cs \<noteq> Inl RecursionError \<Longrightarrow> parse_base (n + k) cs = parse_base n cs"
proof (induction n cs and n left cs and n cs and n nodes cs and n cs and n cs rule: parse_induct)
  case (2 n cs)
  then show ?case by (auto split: sum.splits prod.splits)
next
  case (5 n left c cs)
  then show ?case by (auto split: sum.splits prod.splits)
next
  case (7 n cs)
  then show ?case by (auto split: sum.splits prod.splits)
next
  case (10 n nodes c cs)
  then show ?case by (auto split: sum.splits prod.splits)
next
  case (12 n cs)
  then show ?case by (auto split: sum.splits prod.splits)
next
  case (15 n c cs)
  then show ?case by (auto split: sum.splits prod.splits list.splits)
qed auto

lemma star_loop_append:
  "star_loop node cs = (v, rest) \<Longrightarrow>
     star_loop node (cs @ ch_rparen # zs) = (v, rest @ ch_rparen # zs)"
  by (induction node cs rule: star_loop.induct) (auto simp: regex_chars split: if_splits)

lemma parse_append:
  "parse_or n cs = Inr (v, rest) \<Longrightarrow>
     parse_or n (cs @ ch_rparen # zs) = Inr (v, rest @ ch_rparen # zs)"
  "parse_or_loop n left cs = Inr (v, rest) \<Longrightarrow>
     parse_or_loop n left (cs @ ch_rparen # zs) = Inr (v, rest @ ch_rparen # zs)"
  "parse_concat n cs = Inr (v, rest) \<Longrightarrow>
     parse_concat n (cs @ ch_rparen # zs) = Inr (v, rest @ ch_rparen # zs)"
  "parse_concat_loop n nodes cs = Inr (vs, rest) \<Longrightarrow>
     parse_concat_loop n nodes (cs @ ch_rparen # zs) = Inr (vs, rest @ ch_rparen # zs)"
  "parse_star n cs = Inr (v, rest) \<Longrightarrow>
     parse_star n (cs @ ch_rparen # zs) = Inr (v, rest @ ch_rparen # zs)"
  "parse_base n cs = Inr (v, rest) \<Longrightarrow>
     parse_base n (cs @ ch_rparen # zs) = Inr (v, rest @ ch_rparen # zs)"
proof (induction n cs and n left cs and n cs and n nodes cs and n cs and n cs
       arbitrary: v rest and v rest and v rest and vs rest and v rest and v rest
       rule: parse_induct)
  case (2 n cs)
  then show ?case by (auto split: sum.splits prod.splits)
next
  case (4 n left)
  then show ?case by (auto simp: regex_chars)
next
  case (5 n left c cs)
  then show ?case by (auto split: sum.splits prod.splits if_splits)
next
  case (7 n cs)
  then show ?case by (auto split: sum.splits prod.splits)
next
  case (9 n nodes)
  then show ?case by auto
next
  case (10 n nodes c cs)
  then show ?case by (auto split: sum.splits prod.splits if_splits)
next
  case (12 n cs)
  then show ?case by (auto split: sum.splits prod.splits dest: star_loop_append)
next
  case (15 n c cs)
  show ?case
  proof (cases "c = ch_lparen")
    case True
    with "15.prems" have "parse_or n cs = Inr (v, ch_rparen # rest)"
      by (auto split: sum.splits prod.splits list.splits if_splits)
    from "15.IH" [OF True this] True show ?thesis
      by simp
  next
    case False
    with "15.prems" show ?thesis
      by (cases cs) (auto simp: regex_chars split: if_splits)
  qed
qed auto


text \<open>
  The failures of the parser, stated without the parser, as one pass over the text from
  left to right.  \<open>spec_rejects d b cs\<close> reads \<open>cs\<close> with \<open>d\<close> parentheses open;
  \<open>b\<close> says that an operand must start at the cursor, which is so at the beginning,
  directly after a \<open>(\<close> and directly after a \<open>|\<close>.
  \<^item> A \<open>*\<close> or \<open>+\<close> where an operand must start is a failure.
  \<^item> The end of the text with a parenthesis still open is a failure.
  \<^item> A \<open>)\<close> with no parenthesis open ends the pass without a failure, whatever
    follows it: the parser returns there and never reads the rest.
  \<^item> Nothing else is a failure; in particular a \<open>)\<close>, a \<open>|\<close> or the end of the text
    where an operand could start is none (the empty operand is an EPSILON node).
\<close>

fun spec_rejects :: "nat \<Rightarrow> bool \<Rightarrow> pystr \<Rightarrow> bool" where
  "spec_rejects d b [] = (0 < d)"
| "spec_rejects d b (c # cs) =
     (if c = ch_lparen then spec_rejects (Suc d) True cs
      else if c = ch_rparen then (case d of 0 \<Rightarrow> False | Suc d' \<Rightarrow> spec_rejects d' False cs)
      else if c = ch_bar then spec_rejects d True cs
      else if c = ch_star \<or> c = ch_plus then (if b then True else spec_rejects d False cs)
      else spec_rejects d False cs)"

definition stops_at :: "nat list \<Rightarrow> pystr \<Rightarrow> bool" where
  "stops_at S cs \<longleftrightarrow> cs = [] \<or> hd cs \<in> set S"

definition no_postfix :: "pystr \<Rightarrow> bool" where
  "no_postfix cs \<longleftrightarrow> cs = [] \<or> (hd cs \<noteq> ch_star \<and> hd cs \<noteq> ch_plus)"

lemma spec_rejects_flag:
  "no_postfix cs \<Longrightarrow> spec_rejects d b cs = spec_rejects d True cs"
  by (cases cs) (auto simp: no_postfix_def)

lemma stops_no_postfix: "stops_at [ch_rparen, ch_bar] cs \<Longrightarrow> no_postfix cs"
  by (auto simp: stops_at_def no_postfix_def regex_chars)

lemma star_loop_spec:
  "star_loop node cs = (v, rest) \<Longrightarrow>
     spec_rejects d False cs = spec_rejects d False rest \<and> no_postfix rest"
  by (induction node cs rule: star_loop.induct)
     (auto simp: no_postfix_def regex_chars split: if_splits)

lemma parse_spec:
  "(parse_or n cs = Inr (v, rest) \<longrightarrow>
      spec_rejects d True cs = spec_rejects d True rest \<and> stops_at [ch_rparen] rest) \<and>
   (parse_or n cs = Inl e \<longrightarrow> e \<noteq> RecursionError \<longrightarrow> spec_rejects d True cs)"
  "stops_at [ch_rparen, ch_bar] cs \<Longrightarrow>
   (parse_or_loop n left cs = Inr (v, rest) \<longrightarrow>
      spec_rejects d True cs = spec_rejects d True rest \<and> stops_at [ch_rparen] rest) \<and>
   (parse_or_loop n left cs = Inl e \<longrightarrow> e \<noteq> RecursionError \<longrightarrow> spec_rejects d True cs)"
  "(parse_concat n cs = Inr (v, rest) \<longrightarrow>
      spec_rejects d True cs = spec_rejects d True rest \<and> stops_at [ch_rparen, ch_bar] rest) \<and>
   (parse_concat n cs = Inl e \<longrightarrow> e \<noteq> RecursionError \<longrightarrow> spec_rejects d True cs)"
  "(parse_concat_loop n nodes cs = Inr (vs, rest) \<longrightarrow>
      spec_rejects d True cs = spec_rejects d True rest \<and> stops_at [ch_rparen, ch_bar] rest) \<and>
   (parse_concat_loop n nodes cs = Inl e \<longrightarrow> e \<noteq> RecursionError \<longrightarrow> spec_rejects d True cs)"
  "\<not> stops_at [ch_rparen, ch_bar] cs \<Longrightarrow>
   (parse_star n cs = Inr (v, rest) \<longrightarrow>
      spec_rejects d True cs = spec_rejects d True rest \<and> no_postfix rest) \<and>
   (parse_star n cs = Inl e \<longrightarrow> e \<noteq> RecursionError \<longrightarrow> spec_rejects d True cs)"
  "\<not> stops_at [ch_rparen, ch_bar] cs \<Longrightarrow>
   (parse_base n cs = Inr (v, rest) \<longrightarrow> spec_rejects d True cs = spec_rejects d False rest) \<and>
   (parse_base n cs = Inl e \<longrightarrow> e \<noteq> RecursionError \<longrightarrow> spec_rejects d True cs)"
proof (induction n cs and n left cs and n cs and n nodes cs and n cs and n cs
       arbitrary: v rest e d and v rest e d and v rest e d and vs rest e d and v rest e d
         and v rest e d
       rule: parse_induct)
  case (2 n cs)
  show ?case
  proof (cases "parse_concat n cs")
    case (Inl e')
    with "2.IH"(1) show ?thesis by auto
  next
    case (Inr p)
    obtain left rest1 where p: "p = (left, rest1)" by (cases p)
    from "2.IH"(1) Inr p
    have a: "spec_rejects d True cs = spec_rejects d True rest1"
      and b: "stops_at [ch_rparen, ch_bar] rest1" by auto
    from "2.IH"(2) [OF Inr p [symmetric] b, of v rest d e] a Inr p show ?thesis
      by auto
  qed
next
  case (4 n left)
  then show ?case by (auto simp: stops_at_def)
next
  case (5 n left c cs)
  show ?case
  proof (cases "c = ch_bar")
    case False
    with "5.prems" show ?thesis by (auto simp: stops_at_def)
  next
    case True
    show ?thesis
    proof (cases "parse_concat n cs")
      case (Inl e')
      with "5.IH"(1) [OF True] True show ?thesis by (auto simp: regex_chars)
    next
      case (Inr p)
      obtain right rest1 where p: "p = (right, rest1)" by (cases p)
      from "5.IH"(1) [OF True] Inr p
      have a: "spec_rejects d True cs = spec_rejects d True rest1"
        and b: "stops_at [ch_rparen, ch_bar] rest1" by auto
      from "5.IH"(2) [OF True Inr p [symmetric] b, of v rest d e] a Inr p True show ?thesis
        by (auto simp: regex_chars)
    qed
  qed
next
  case (7 n cs)
  from "7.IH" "7.IH" show ?case
    by (auto split: sum.splits prod.splits)
next
  case (9 n nodes)
  then show ?case by (auto simp: stops_at_def)
next
  case (10 n nodes c cs)
  show ?case
  proof (cases "c = ch_rparen \<or> c = ch_bar")
    case True
    then show ?thesis by (auto simp: stops_at_def)
  next
    case False
    show ?thesis
    proof (cases "parse_star n (c # cs)")
      case (Inl e')
      with "10.IH"(1) [OF False] False show ?thesis by (auto simp: stops_at_def)
    next
      case (Inr p)
      obtain node rest1 where p: "p = (node, rest1)" by (cases p)
      from "10.IH"(1) [OF False] Inr p False
      have a: "spec_rejects d True (c # cs) = spec_rejects d True rest1"
        by (auto simp: stops_at_def)
      from "10.IH"(2) [OF False Inr p [symmetric], of vs rest d e] a Inr p False show ?thesis
        by auto
    qed
  qed
next
  case (12 n cs)
  show ?case
  proof (cases "parse_base n cs")
    case (Inl e')
    with "12.IH" "12.prems" show ?thesis by auto
  next
    case (Inr p)
    obtain node rest1 where p: "p = (node, rest1)" by (cases p)
    from "12.IH" "12.prems" Inr p
    have a: "spec_rejects d True cs = spec_rejects d False rest1" by auto
    show ?thesis
      using a Inr p star_loop_spec [of node rest1 v rest d] spec_rejects_flag [of rest d False]
      by auto
  qed
next
  case (14 n)
  then show ?case by (auto simp: stops_at_def)
next
  case (15 n c cs)
  show ?case
  proof (cases "c = ch_lparen")
    case False
    with "15.prems" show ?thesis
      by (cases cs) (auto simp: stops_at_def regex_chars split: if_splits)
  next
    case True
    show ?thesis
    proof (cases "parse_or n cs")
      case (Inl e')
      with "15.IH" [OF True] True show ?thesis by auto
    next
      case (Inr p)
      obtain node rest1 where p: "p = (node, rest1)" by (cases p)
      from "15.IH" [OF True] Inr p
      have a: "spec_rejects (Suc d) True cs = spec_rejects (Suc d) True rest1"
        and b: "stops_at [ch_rparen] rest1" by auto
      show ?thesis
        using a b Inr p True
        by (cases rest1) (auto simp: stops_at_def regex_chars)
    qed
  qed
qed auto

lemma parse_regex_budget: "parse_regex r \<noteq> Inl RecursionError"
  using parse_enough_budget(1) [of "strip_spaces r" "parse_budget (strip_spaces r)"]
  by (auto simp: parse_regex_def parse_budget_def split: sum.splits)

lemma parse_kind:
  "parse_or n cs = Inl e \<Longrightarrow> e = RecursionError \<or> (\<exists>msg. e = ValueError msg)"
  "parse_or_loop n left cs = Inl e \<Longrightarrow> e = RecursionError \<or> (\<exists>msg. e = ValueError msg)"
  "parse_concat n cs = Inl e \<Longrightarrow> e = RecursionError \<or> (\<exists>msg. e = ValueError msg)"
  "parse_concat_loop n nodes cs = Inl e \<Longrightarrow> e = RecursionError \<or> (\<exists>msg. e = ValueError msg)"
  "parse_star n cs = Inl e \<Longrightarrow> e = RecursionError \<or> (\<exists>msg. e = ValueError msg)"
  "parse_base n cs = Inl e \<Longrightarrow> e = RecursionError \<or> (\<exists>msg. e = ValueError msg)"
  by (induction n cs and n left cs and n cs and n nodes cs and n cs and n cs
      rule: parse_induct)
    (auto split: sum.splits prod.splits if_splits list.splits)

lemma parse_regex_kind:
  "parse_regex r = Inl e \<Longrightarrow> e = RecursionError \<or> (\<exists>msg. e = ValueError msg)"
  by (auto simp: parse_regex_def dest: parse_kind(1) split: if_splits sum.splits)

lemma parse_regex_fails_iff:
  "(\<exists>e. parse_regex r = Inl e) \<longleftrightarrow> spec_rejects 0 True (strip_spaces r)"
proof (cases "r = []")
  case True
  then show ?thesis by (simp add: parse_regex_def strip_spaces_def)
next
  case False
  let ?cs = "strip_spaces r"
  show ?thesis
  proof (cases "parse_or (parse_budget ?cs) ?cs")
    case (Inl e)
    moreover from Inl False have "e \<noteq> RecursionError"
      using parse_regex_budget [of r] by (auto simp: parse_regex_def)
    ultimately show ?thesis
      using parse_spec(1) [of "parse_budget ?cs" ?cs _ _ 0 e] False
      by (auto simp: parse_regex_def)
  next
    case (Inr p)
    obtain v rest where p: "p = (v, rest)" by (cases p)
    from parse_spec(1) [of "parse_budget ?cs" ?cs v rest 0] Inr p
    have "spec_rejects 0 True ?cs = spec_rejects 0 True rest" and "stops_at [ch_rparen] rest"
      by auto
    then have "\<not> spec_rejects 0 True ?cs"
      by (cases rest) (auto simp: stops_at_def regex_chars)
    with Inr p False show ?thesis
      by (auto simp: parse_regex_def)
  qed
qed

text \<open>
  C5.  The claim fails for inputs that begin with \<open>)\<close> or \<open>|\<close>: \<open>parse_concat\<close>
  stops at either character before \<open>parse_base\<close> is called and returns an EPSILON node
  for the empty sequence.
\<close>

theorem reserved_first_character_counterexample:
  "parse_regex (py '')'') = Inr EPSILON \<and> parse_regex (py ''|'') = Inr (OR EPSILON EPSILON)"
  by code_simp

text \<open>
  C5, amended.  Read the input from left to right, spaces removed, up to the first \<open>)\<close>
  that has no open \<open>(\<close>, where the parser stops and returns without looking at the
  rest.  \<open>parse_regex\<close> raises exactly when, in the part read, a \<open>*\<close> or \<open>+\<close>
  stands where an operand must start (at the beginning, directly after a \<open>(\<close> or
  directly after a \<open>|\<close>), or the input ends while a \<open>(\<close> is still open; what it
  raises is a \<open>ValueError\<close>.  A \<open>)\<close>, a \<open>|\<close> or the end of the input where an
  operand could start raises nothing.  In particular every input whose first character
  is \<open>*\<close> or \<open>+\<close> raises, every input whose first character is \<open>)\<close> returns an
  EPSILON node, and an input that begins with \<open>|\<close> raises exactly when the input
  without that \<open>|\<close> does.
\<close>

theorem parse_regex_fails_exactly:
  "((\<exists>e. parse_regex r = Inl e) \<longleftrightarrow> spec_rejects 0 True (strip_spaces r))
   \<and> (\<forall>e. parse_regex r = Inl e \<longrightarrow> (\<exists>msg. e = ValueError msg))
   \<and> (\<forall>cs. strip_spaces r = ch_star # cs \<or> strip_spaces r = ch_plus # cs \<longrightarrow>
          parse_regex r = Inl (ValueError ''Unexpected character''))
   \<and> (\<forall>cs. strip_spaces r = ch_rparen # cs \<longrightarrow> parse_regex r = Inr EPSILON)
   \<and> ((\<exists>e. parse_regex (ch_bar # r) = Inl e) \<longleftrightarrow> (\<exists>e. parse_regex r = Inl e))"
proof -
  have star: "parse_regex r = Inl (ValueError ''Unexpected character'')"
    if "strip_spaces r = c # cs" and "c = ch_star \<or> c = ch_plus" for c cs
  proof -
    have "parse_budget (strip_spaces r) = Suc (Suc (Suc (Suc (Suc (parse_budget cs + 1)))))"
      using that by (simp add: parse_budget_def)
    moreover have "r \<noteq> []" using that by (auto simp: strip_spaces_def)
    ultimately show ?thesis
      using that by (auto simp: parse_regex_def regex_chars)
  qed
  have rparen: "parse_regex r = Inr EPSILON" if "strip_spaces r = ch_rparen # cs" for cs
  proof -
    have "parse_budget (strip_spaces r) = Suc (Suc (Suc (Suc (Suc (parse_budget cs + 1)))))"
      using that by (simp add: parse_budget_def)
    moreover have "r \<noteq> []" using that by (auto simp: strip_spaces_def)
    ultimately show ?thesis
      using that by (auto simp: parse_regex_def regex_chars concat_tree_def)
  qed
  have "strip_spaces (ch_bar # r) = ch_bar # strip_spaces r"
    by (simp add: strip_spaces_def regex_chars)
  then have "spec_rejects 0 True (strip_spaces (ch_bar # r)) = spec_rejects 0 True (strip_spaces r)"
    by (simp add: regex_chars)
  with parse_regex_fails_iff [of "ch_bar # r"] parse_regex_fails_iff [of r]
  have bar: "(\<exists>e. parse_regex (ch_bar # r) = Inl e) \<longleftrightarrow> (\<exists>e. parse_regex r = Inl e)"
    by simp
  have kind: "\<exists>msg. e = ValueError msg" if "parse_regex r = Inl e" for e
    using parse_regex_kind [OF that] parse_regex_budget [of r] that by auto
  show ?thesis
    using parse_regex_fails_iff [of r] kind star rparen bar by blast
qed

theorem parse_regex_fails_exactly_witness:
  "parse_regex (py ''+a'') = Inl (ValueError ''Unexpected character'')
   \<and> parse_regex (py '')a('') = Inr EPSILON
   \<and> spec_rejects 0 True (strip_spaces (py ''(a|b''))
   \<and> (\<exists>msg. parse_regex (py ''(a|b'') = Inl (ValueError msg))
   \<and> \<not> spec_rejects 0 True (strip_spaces (py ''a)(''))
   \<and> parse_regex (py ''a)('') = Inr (CHARACTER (py ''a''))
   \<and> (\<exists>e. parse_regex (py ''|*'') = Inl e)"
proof -
  have a: "strip_spaces (py ''+a'') = ch_plus # py ''a''"
    and b: "strip_spaces (py '')a('') = ch_rparen # py ''a(''"
    and c: "spec_rejects 0 True (strip_spaces (py ''(a|b''))"
    and d: "\<not> spec_rejects 0 True (strip_spaces (py ''a)(''))"
    and e: "strip_spaces (py ''*'') = ch_star # []"
    and f: "py ''|*'' = ch_bar # py ''*''"
    by (simp_all add: strip_spaces_def py_def regex_chars)
  have g: "parse_regex (py ''a)('') = Inr (CHARACTER (py ''a''))"
    by code_simp
  from parse_regex_fails_exactly [of "py ''+a''"] a
  have 1: "parse_regex (py ''+a'') = Inl (ValueError ''Unexpected character'')" by blast
  from parse_regex_fails_exactly [of "py '')a(''"] b
  have 2: "parse_regex (py '')a('') = Inr EPSILON" by blast
  from parse_regex_fails_exactly [of "py ''(a|b''"] c
  have 3: "\<exists>msg. parse_regex (py ''(a|b'') = Inl (ValueError msg)" by blast
  from parse_regex_fails_exactly [of "py ''*''"] e
  have 4: "\<exists>e. parse_regex (py ''|*'') = Inl e" unfolding f by blast
  from 1 2 3 4 c d g show ?thesis by simp
qed

definition parses_completely :: "pystr \<Rightarrow> RegexNode \<Rightarrow> bool" where
  "parses_completely r ast \<longleftrightarrow>
     parse_or (parse_budget (strip_spaces r)) (strip_spaces r) = Inr (ast, [])"

text \<open>
  C9.  When the parser consumes all of \<open>r\<close> and returns \<open>ast\<close>, it returns the same
  \<open>ast\<close> for \<open>r\<close> followed by a \<open>)\<close> and any further text: \<open>parse\<close> returns what
  \<open>parse_or\<close> returns and never looks at the rest of the input.
\<close>

theorem stray_rparen_ignored:
  assumes "parses_completely r ast"
  shows "parse_regex r = Inr ast \<and> parse_regex (r @ ch_rparen # junk) = Inr ast"
proof -
  let ?cs = "strip_spaces r" and ?zs = "strip_spaces junk"
  have run: "parse_or (parse_budget ?cs) ?cs = Inr (ast, [])"
    using assms by (simp add: parses_completely_def)
  have first: "parse_regex r = Inr ast"
  proof (cases "r = []")
    case True
    with run show ?thesis
      by (simp add: parse_regex_def strip_spaces_def parse_budget_def numeral_eq_Suc
            concat_tree_def)
  next
    case False
    with run show ?thesis by (simp add: parse_regex_def)
  qed
  have strip: "strip_spaces (r @ ch_rparen # junk) = ?cs @ ch_rparen # ?zs"
    by (simp add: strip_spaces_def regex_chars)
  have budget: "parse_budget (?cs @ ch_rparen # ?zs) = parse_budget ?cs + (6 * length ?zs + 6)"
    by (simp add: parse_budget_def)
  have "parse_or (parse_budget ?cs + (6 * length ?zs + 6)) ?cs = Inr (ast, [])"
    using parse_more_budget(1) [of "parse_budget ?cs" ?cs] run by simp
  from parse_append(1) [OF this, of ?zs]
  have "parse_regex (r @ ch_rparen # junk) = Inr ast"
    by (simp add: parse_regex_def strip budget)
  with first show ?thesis by simp
qed

theorem stray_rparen_ignored_witness:
  "parses_completely (py ''a'') (CHARACTER (py ''a''))
   \<and> parse_regex (py ''a'') = Inr (CHARACTER (py ''a''))
   \<and> parse_regex (py ''a)b'') = Inr (CHARACTER (py ''a''))"
proof -
  have h: "parses_completely (py ''a'') (CHARACTER (py ''a''))"
    by code_simp
  have "py ''a)b'' = py ''a'' @ ch_rparen # py ''b''"
    by (simp add: py_def regex_chars)
  with stray_rparen_ignored [OF h, of "py ''b''"] h show ?thesis
    by simp
qed

section \<open>algorithms/thompson.py\<close>

text \<open>
  State names are \<open>f"q{k}"\<close> for the value \<open>k\<close> of a counter: the letter q followed by
  the decimal digits of \<open>k\<close>.
\<close>

function digits :: "nat \<Rightarrow> pystr" where
  "digits k = (if k < 10 then [48 + k] else digits (k div 10) @ [48 + k mod 10])"
  by pat_completeness auto
termination
  by (relation "measure id") auto

declare digits.simps [simp del]

definition state_name :: "nat \<Rightarrow> pystr" where
  "state_name k = 113 # digits k"

record ThompsonFragment =
  start :: pystr
  accept :: pystr

definition new_state :: "nat \<Rightarrow> pystr \<times> nat" where
  "new_state counter = (state_name (counter + 1), counter + 1)"

text \<open>
  \<open>nfa.states[q].is_accept = False\<close> raises \<open>KeyError\<close> when \<open>q\<close> is not a key.
\<close>

definition unset_accept_flag :: "pystr \<Rightarrow> nfa \<Rightarrow> error + nfa" where
  "unset_accept_flag q n =
     (case dict_get (states n) q of
        None \<Rightarrow> Inl KeyError
      | Some st \<Rightarrow> Inr (n\<lparr>states := dict_set q (st\<lparr>is_accept := False\<rparr>) (states n)\<rparr>))"

definition discard_accept :: "pystr \<Rightarrow> nfa \<Rightarrow> nfa" where
  "discard_accept q n = n\<lparr>accept_states := set_discard q (accept_states n)\<rparr>"

definition set_start_flag :: "pystr \<Rightarrow> nfa \<Rightarrow> error + nfa" where
  "set_start_flag q n =
     (case dict_get (states n) q of
        None \<Rightarrow> Inl KeyError
      | Some st \<Rightarrow> Inr (n\<lparr>states := dict_set q (st\<lparr>is_start := True\<rparr>) (states n)\<rparr>))"

definition new_pair :: "nfa \<times> nat \<Rightarrow> ThompsonFragment \<times> nfa \<times> nat" where
  "new_pair = (\<lambda>(n, counter).
     let (s, c1) = new_state counter;
         (a, c2) = new_state c1;
         n1 = add_state s False False n;
         n2 = add_state a True False n1
     in (\<lparr>start = s, accept = a\<rparr>, n2, c2))"

fun build_fragment :: "RegexNode \<Rightarrow> nfa \<times> nat \<Rightarrow> error + ThompsonFragment \<times> nfa \<times> nat" where
  "build_fragment EPSILON st =
     (case new_pair st of (f, n, c) \<Rightarrow>
        Inr (f, nfa_add_transition (start f) (accept f) EPS n, c))"
| "build_fragment (CHARACTER v) st =
     (case new_pair st of (f, n, c) \<Rightarrow>
        Inr (f, nfa_add_transition (start f) (accept f) v n, c))"
| "build_fragment (CONCAT l r) st =
     (case build_fragment l st of Inl e \<Rightarrow> Inl e | Inr (left_frag, n1, c1) \<Rightarrow>
      case build_fragment r (n1, c1) of Inl e \<Rightarrow> Inl e | Inr (right_frag, n2, c2) \<Rightarrow>
      case unset_accept_flag (accept left_frag) n2 of Inl e \<Rightarrow> Inl e | Inr n3 \<Rightarrow>
        let n4 = discard_accept (accept left_frag) n3;
            n5 = nfa_add_transition (accept left_frag) (start right_frag) EPS n4
        in Inr (\<lparr>start = start left_frag, accept = accept right_frag\<rparr>, n5, c2))"
| "build_fragment (OR l r) st =
     (case build_fragment l st of Inl e \<Rightarrow> Inl e | Inr (left_frag, n1, c1) \<Rightarrow>
      case build_fragment r (n1, c1) of Inl e \<Rightarrow> Inl e | Inr (right_frag, n2, c2) \<Rightarrow>
      case new_pair (n2, c2) of (f, n3, c3) \<Rightarrow>
      case unset_accept_flag (accept left_frag) n3 of Inl e \<Rightarrow> Inl e | Inr n4 \<Rightarrow>
      case unset_accept_flag (accept right_frag) n4 of Inl e \<Rightarrow> Inl e | Inr n5 \<Rightarrow>
        let n6 = discard_accept (accept left_frag) n5;
            n7 = discard_accept (accept right_frag) n6;
            n8 = nfa_add_transition (start f) (start left_frag) EPS n7;
            n9 = nfa_add_transition (start f) (start right_frag) EPS n8;
            n10 = nfa_add_transition (accept left_frag) (accept f) EPS n9;
            n11 = nfa_add_transition (accept right_frag) (accept f) EPS n10
        in Inr (f, n11, c3))"
| "build_fragment (STAR x) st =
     (case build_fragment x st of Inl e \<Rightarrow> Inl e | Inr (inner_frag, n1, c1) \<Rightarrow>
      case new_pair (n1, c1) of (f, n2, c2) \<Rightarrow>
      case unset_accept_flag (accept inner_frag) n2 of Inl e \<Rightarrow> Inl e | Inr n3 \<Rightarrow>
        let n4 = discard_accept (accept inner_frag) n3;
            n5 = nfa_add_transition (start f) (start inner_frag) EPS n4;
            n6 = nfa_add_transition (start f) (accept f) EPS n5;
            n7 = nfa_add_transition (accept inner_frag) (start inner_frag) EPS n6;
            n8 = nfa_add_transition (accept inner_frag) (accept f) EPS n7
        in Inr (f, n8, c2))"
| "build_fragment (PLUS x) st =
     (case build_fragment x st of Inl e \<Rightarrow> Inl e | Inr (inner_frag, n1, c1) \<Rightarrow>
      case new_pair (n1, c1) of (f, n2, c2) \<Rightarrow>
      case unset_accept_flag (accept inner_frag) n2 of Inl e \<Rightarrow> Inl e | Inr n3 \<Rightarrow>
        let n4 = discard_accept (accept inner_frag) n3;
            n5 = nfa_add_transition (start f) (start inner_frag) EPS n4;
            n6 = nfa_add_transition (accept inner_frag) (start inner_frag) EPS n5;
            n7 = nfa_add_transition (accept inner_frag) (accept f) EPS n6
        in Inr (f, n7, c2))"

definition thompson_ast :: "RegexNode \<Rightarrow> error + nfa" where
  "thompson_ast ast =
     (case build_fragment ast (NFA, 0) of
        Inl e \<Rightarrow> Inl e
      | Inr (fragment, n, _) \<Rightarrow>
          (case set_start_flag (start fragment) (n\<lparr>start_state := Some (start fragment)\<rparr>) of
             Inl e \<Rightarrow> Inl e
           | Inr n' \<Rightarrow> Inr n'))"

definition thompson_construction :: "pystr \<Rightarrow> error + nfa" where
  "thompson_construction regex =
     (case parse_regex regex of Inl e \<Rightarrow> Inl e | Inr ast \<Rightarrow> thompson_ast ast)"

subsection \<open>Names\<close>

lemma digits_nonempty: "digits k \<noteq> []" "[] \<noteq> digits k"
  by (subst digits.simps, simp)+

lemma digits_inj: "digits j = digits k \<Longrightarrow> j = k"
proof (induction j arbitrary: k rule: digits.induct)
  case (1 j)
  show ?case
  proof (cases "j < 10")
    case True
    with "1.prems" have "[48 + j] = digits k"
      by (subst (asm) digits.simps) simp
    then show ?thesis
      by (subst (asm) digits.simps) (auto simp: digits_nonempty split: if_splits)
  next
    case False
    with "1.prems" have eq: "digits (j div 10) @ [48 + j mod 10] = digits k"
      by (subst (asm) digits.simps) simp
    show ?thesis
    proof (cases "k < 10")
      case True
      with eq show ?thesis
        by (subst (asm) (2) digits.simps) (simp add: digits_nonempty)
    next
      case k: False
      with eq have "digits (j div 10) @ [48 + j mod 10] = digits (k div 10) @ [48 + k mod 10]"
        by (subst (asm) (2) digits.simps) simp
      then have "digits (j div 10) = digits (k div 10)" and m: "j mod 10 = k mod 10"
        by simp_all
      from "1.IH" [OF False this(1)] m show ?thesis
        by (metis div_mult_mod_eq)
    qed
  qed
qed

lemma state_name_inj [simp]: "state_name j = state_name k \<longleftrightarrow> j = k"
  by (auto simp: state_name_def dest: digits_inj)

subsection \<open>The invariant of the construction\<close>

definition thompson_inv :: "nfa \<Rightarrow> nat \<Rightarrow> bool" where
  "thompson_inv n c \<longleftrightarrow>
     distinct (dict_keys (states n)) \<and>
     (\<forall>q \<in> set (dict_keys (states n)). \<exists>k. 0 < k \<and> k \<le> c \<and> q = state_name k) \<and>
     (\<forall>st \<in> snd ` set (states n). \<not> is_start st) \<and>
     set (accept_states n) \<subseteq> set (dict_keys (states n)) \<and>
     distinct (accept_states n)"

definition fragment_post ::
  "nfa \<Rightarrow> nat \<Rightarrow> ThompsonFragment \<Rightarrow> nfa \<Rightarrow> nat \<Rightarrow> bool" where
  "fragment_post n c f n' c' \<longleftrightarrow>
     thompson_inv n' c' \<and> c \<le> c' \<and>
     accept_states n' = accept_states n @ [accept f] \<and>
     start f \<in> set (dict_keys (states n')) \<and>
     accept f \<in> set (dict_keys (states n')) \<and>
     set (dict_keys (states n)) \<subseteq> set (dict_keys (states n')) \<and>
     start_state n' = start_state n"

lemma dict_keys_set:
  "dict_keys (dict_set k v d) = (if k \<in> set (dict_keys d) then dict_keys d else dict_keys d @ [k])"
  by (simp add: dict_keys_def dict_set_def AList.update_keys)

lemma dict_values_set:
  "snd ` set (dict_set k v d) \<subseteq> insert v (snd ` set d)"
  unfolding dict_set_def by (induction d) auto

lemma dict_values_cases:
  "x \<in> snd ` set (dict_set k v d) \<Longrightarrow> x = v \<or> x \<in> snd ` set d"
  using dict_values_set [of k v d] by blast

lemma nfa_add_transition_fields [simp]:
  "states (nfa_add_transition f t c n) = states n"
  "accept_states (nfa_add_transition f t c n) = accept_states n"
  "start_state (nfa_add_transition f t c n) = start_state n"
  by (simp_all add: nfa_add_transition_def base_add_transition_def Let_def)

lemma thompson_inv_add_transition [simp]:
  "thompson_inv (nfa_add_transition f t c n) k = thompson_inv n k"
  by (simp add: thompson_inv_def)

lemma new_pair_post:
  assumes "thompson_inv n c" and "new_pair (n, c) = (f, n', c')"
  shows "fragment_post n c f n' c'"
proof -
  let ?s = "state_name (c + 1)" and ?a = "state_name (c + 2)"
  have fresh: "?s \<notin> set (dict_keys (states n))" "?a \<notin> set (dict_keys (states n))"
    using assms(1) by (auto simp: thompson_inv_def)
  have f: "f = \<lparr>start = ?s, accept = ?a\<rparr>" and c': "c' = c + 2"
    and n': "n' = add_state ?a True False (add_state ?s False False n)"
    using assms(2) by (auto simp: new_pair_def new_state_def Let_def)
  have keys: "dict_keys (states n') = dict_keys (states n) @ [?s, ?a]"
    using fresh by (simp add: n' add_state_def Let_def dict_keys_set)
  have acc: "accept_states n' = accept_states n @ [?a]"
    using fresh assms(1) by (auto simp: n' add_state_def Let_def set_add_def thompson_inv_def)
  have old: "\<not> is_start x" if "x \<in> snd ` set (states n)" for x
    using assms(1) that by (auto simp: thompson_inv_def)
  have vals: "\<not> is_start x" if "x \<in> snd ` set (states n')" for x
  proof -
    let ?d1 = "dict_set ?s \<lparr>name = ?s, is_accept = False, is_start = False\<rparr> (states n)"
    have d1: "\<not> is_start y" if "y \<in> snd ` set ?d1" for y
      using dict_values_cases [OF that] old by auto
    have "states n' = dict_set ?a \<lparr>name = ?a, is_accept = True, is_start = False\<rparr> ?d1"
      by (simp add: n' add_state_def Let_def)
    with that have "x \<in> snd ` set (dict_set ?a \<lparr>name = ?a, is_accept = True, is_start = False\<rparr> ?d1)"
      by simp
    from dict_values_cases [OF this] d1 show ?thesis by auto
  qed
  have st: "start_state n' = start_state n"
    by (simp add: n' add_state_def Let_def)
  have "thompson_inv n' c'"
    unfolding thompson_inv_def
  proof (intro conjI)
    show "distinct (dict_keys (states n'))"
      using assms(1) fresh by (auto simp: keys thompson_inv_def)
    show "\<forall>q\<in>set (dict_keys (states n')). \<exists>k>0. k \<le> c' \<and> q = state_name k"
    proof
      fix q assume "q \<in> set (dict_keys (states n'))"
      then consider "q \<in> set (dict_keys (states n))" | "q = ?s" | "q = ?a"
        by (auto simp: keys)
      then show "\<exists>k>0. k \<le> c' \<and> q = state_name k"
      proof cases
        case 1
        with assms(1) obtain k where "0 < k" "k \<le> c" "q = state_name k"
          by (auto simp: thompson_inv_def)
        then show ?thesis by (intro exI [of _ k]) (simp add: c')
      next
        case 2
        then show ?thesis by (intro exI [of _ "c + 1"]) (simp add: c')
      next
        case 3
        then show ?thesis by (intro exI [of _ "c + 2"]) (simp add: c')
      qed
    qed
    show "\<forall>st\<in>snd ` set (states n'). \<not> is_start st"
      using vals by blast
    show "set (accept_states n') \<subseteq> set (dict_keys (states n'))"
      using assms(1) by (auto simp: acc keys thompson_inv_def)
    show "distinct (accept_states n')"
      using assms(1) fresh by (auto simp: acc thompson_inv_def)
  qed
  then show ?thesis
    by (auto simp: fragment_post_def f c' keys acc st)
qed

lemma unset_accept_flag_post:
  assumes "thompson_inv n c" and "q \<in> set (dict_keys (states n))"
  obtains n' where "unset_accept_flag q n = Inr n'" and "thompson_inv n' c"
    and "dict_keys (states n') = dict_keys (states n)"
    and "accept_states n' = accept_states n" and "start_state n' = start_state n"
proof -
  from assms(2) obtain st where st: "dict_get (states n) q = Some st"
    by (auto simp: dict_get_def dict_keys_def dest: weak_map_of_SomeI)
  let ?n' = "n\<lparr>states := dict_set q (st\<lparr>is_accept := False\<rparr>) (states n)\<rparr>"
  have r: "unset_accept_flag q n = Inr ?n'"
    by (simp add: unset_accept_flag_def st)
  have keys: "dict_keys (states ?n') = dict_keys (states n)"
    using assms(2) by (simp add: dict_keys_set)
  have "st \<in> snd ` set (states n)"
    using st by (force simp: dict_get_def dest: map_of_SomeD)
  then have new: "\<not> is_start (st\<lparr>is_accept := False\<rparr>)"
    using assms(1) by (auto simp: thompson_inv_def)
  have old: "\<not> is_start x" if "x \<in> snd ` set (states n)" for x
    using assms(1) that by (auto simp: thompson_inv_def)
  have "\<not> is_start x" if "x \<in> snd ` set (states ?n')" for x
  proof -
    from that have "x \<in> snd ` set (dict_set q (st\<lparr>is_accept := False\<rparr>) (states n))"
      by simp
    from dict_values_cases [OF this] old new show ?thesis by auto
  qed
  then have "\<forall>x \<in> snd ` set (states ?n'). \<not> is_start x"
    by blast
  then have "thompson_inv ?n' c"
    using assms(1) unfolding thompson_inv_def keys by simp
  with r keys show ?thesis
    by (intro that [of ?n']) simp_all
qed

lemma discard_accept_fields [simp]:
  "states (discard_accept q n) = states n"
  "accept_states (discard_accept q n) = removeAll q (accept_states n)"
  "start_state (discard_accept q n) = start_state n"
  by (simp_all add: discard_accept_def set_discard_def)

lemma thompson_inv_discard:
  "thompson_inv n c \<Longrightarrow> thompson_inv (discard_accept q n) c"
  by (auto simp: thompson_inv_def distinct_removeAll)

lemma fragment_post_add_transition [simp]:
  "fragment_post n c f (nfa_add_transition a b s n') c' = fragment_post n c f n' c'"
  by (simp add: fragment_post_def)

lemma removeAll_distinct_mid:
  "distinct (A @ q # B) \<Longrightarrow> removeAll q (A @ q # B) = A @ B"
  by (simp add: removeAll_id)

lemma build_fragment_post:
  "thompson_inv n c \<Longrightarrow>
     \<exists>f n' c'. build_fragment node (n, c) = Inr (f, n', c') \<and> fragment_post n c f n' c'"
proof (induction node arbitrary: n c)
  case EPSILON
  obtain f n1 c1 where np: "new_pair (n, c) = (f, n1, c1)"
    by (cases "new_pair (n, c)")
  from new_pair_post [OF EPSILON np] np show ?case by simp
next
  case (CHARACTER v)
  obtain f n1 c1 where np: "new_pair (n, c) = (f, n1, c1)"
    by (cases "new_pair (n, c)")
  from new_pair_post [OF CHARACTER np] np show ?case by simp
next
  case (CONCAT l r)
  from CONCAT.IH(1) [OF CONCAT.prems] obtain lf n1 c1
    where l: "build_fragment l (n, c) = Inr (lf, n1, c1)" and lp: "fragment_post n c lf n1 c1"
    by blast
  from lp have inv1: "thompson_inv n1 c1" by (simp add: fragment_post_def)
  from CONCAT.IH(2) [OF inv1] obtain rf n2 c2
    where r: "build_fragment r (n1, c1) = Inr (rf, n2, c2)" and rp: "fragment_post n1 c1 rf n2 c2"
    by blast
  from rp have inv2: "thompson_inv n2 c2" by (simp add: fragment_post_def)
  have in2: "accept lf \<in> set (dict_keys (states n2))"
    using lp rp by (auto simp: fragment_post_def)
  from unset_accept_flag_post [OF inv2 in2] obtain n3
    where u: "unset_accept_flag (accept lf) n2 = Inr n3" and inv3: "thompson_inv n3 c2"
      and k3: "dict_keys (states n3) = dict_keys (states n2)"
      and a3: "accept_states n3 = accept_states n2" and s3: "start_state n3 = start_state n2"
    by blast
  let ?n4 = "discard_accept (accept lf) n3"
  have acc2: "accept_states n2 = accept_states n @ accept lf # [accept rf]"
    using lp rp by (simp add: fragment_post_def)
  have "distinct (accept_states n2)" using inv2 by (simp add: thompson_inv_def)
  then have acc4: "accept_states ?n4 = accept_states n @ [accept rf]"
    unfolding discard_accept_fields a3 acc2 by (rule removeAll_distinct_mid)
  have "fragment_post n c \<lparr>start = start lf, accept = accept rf\<rparr> ?n4 c2"
    unfolding fragment_post_def
    using thompson_inv_discard [OF inv3, of "accept lf"] lp rp acc4 k3 s3
    by (auto simp: fragment_post_def)
  then show ?case
    by (simp add: l r u Let_def)
next
  case (OR l r)
  from OR.IH(1) [OF OR.prems] obtain lf n1 c1
    where l: "build_fragment l (n, c) = Inr (lf, n1, c1)" and lp: "fragment_post n c lf n1 c1"
    by blast
  from lp have inv1: "thompson_inv n1 c1" by (simp add: fragment_post_def)
  from OR.IH(2) [OF inv1] obtain rf n2 c2
    where r: "build_fragment r (n1, c1) = Inr (rf, n2, c2)" and rp: "fragment_post n1 c1 rf n2 c2"
    by blast
  from rp have inv2: "thompson_inv n2 c2" by (simp add: fragment_post_def)
  obtain f n3 c3 where np: "new_pair (n2, c2) = (f, n3, c3)"
    by (cases "new_pair (n2, c2)")
  from new_pair_post [OF inv2 np] have fp: "fragment_post n2 c2 f n3 c3" .
  then have inv3: "thompson_inv n3 c3" by (simp add: fragment_post_def)
  have in3: "accept lf \<in> set (dict_keys (states n3))" "accept rf \<in> set (dict_keys (states n3))"
    using lp rp fp by (auto simp: fragment_post_def)
  from unset_accept_flag_post [OF inv3 in3(1)] obtain n4
    where u4: "unset_accept_flag (accept lf) n3 = Inr n4" and inv4: "thompson_inv n4 c3"
      and k4: "dict_keys (states n4) = dict_keys (states n3)"
      and a4: "accept_states n4 = accept_states n3" and s4: "start_state n4 = start_state n3"
    by blast
  from in3(2) k4 have in4: "accept rf \<in> set (dict_keys (states n4))" by simp
  from unset_accept_flag_post [OF inv4 in4] obtain n5
    where u5: "unset_accept_flag (accept rf) n4 = Inr n5" and inv5: "thompson_inv n5 c3"
      and k5: "dict_keys (states n5) = dict_keys (states n4)"
      and a5: "accept_states n5 = accept_states n4" and s5: "start_state n5 = start_state n4"
    by blast
  let ?n7 = "discard_accept (accept rf) (discard_accept (accept lf) n5)"
  have acc3: "accept_states n3 = accept_states n @ accept lf # accept rf # [accept f]"
    using lp rp fp by (simp add: fragment_post_def)
  have d3: "distinct (accept_states n3)" using inv3 by (simp add: thompson_inv_def)
  have "removeAll (accept lf) (accept_states n3) = accept_states n @ accept rf # [accept f]"
    using d3 unfolding acc3 by (rule removeAll_distinct_mid)
  moreover have "removeAll (accept rf) (accept_states n @ accept rf # [accept f])
                   = accept_states n @ [accept f]"
    using d3 unfolding acc3 by (intro removeAll_distinct_mid) simp
  ultimately have acc7: "accept_states ?n7 = accept_states n @ [accept f]"
    by (simp add: a5 a4)
  have inv7: "thompson_inv ?n7 c3"
    by (intro thompson_inv_discard inv5)
  have "fragment_post n c f ?n7 c3"
    unfolding fragment_post_def
    using inv7 lp rp fp acc7 k4 k5 s4 s5
    by (auto simp: fragment_post_def)
  then show ?case
    by (simp add: l r np u4 u5 Let_def)
next
  case (STAR x)
  from STAR.IH [OF STAR.prems] obtain xf n1 c1
    where x: "build_fragment x (n, c) = Inr (xf, n1, c1)" and xp: "fragment_post n c xf n1 c1"
    by blast
  from xp have inv1: "thompson_inv n1 c1" by (simp add: fragment_post_def)
  obtain f n2 c2 where np: "new_pair (n1, c1) = (f, n2, c2)"
    by (cases "new_pair (n1, c1)")
  from new_pair_post [OF inv1 np] have fp: "fragment_post n1 c1 f n2 c2" .
  then have inv2: "thompson_inv n2 c2" by (simp add: fragment_post_def)
  have in2: "accept xf \<in> set (dict_keys (states n2))"
    using xp fp by (auto simp: fragment_post_def)
  from unset_accept_flag_post [OF inv2 in2] obtain n3
    where u: "unset_accept_flag (accept xf) n2 = Inr n3" and inv3: "thompson_inv n3 c2"
      and k3: "dict_keys (states n3) = dict_keys (states n2)"
      and a3: "accept_states n3 = accept_states n2" and s3: "start_state n3 = start_state n2"
    by blast
  let ?n4 = "discard_accept (accept xf) n3"
  have acc2: "accept_states n2 = accept_states n @ accept xf # [accept f]"
    using xp fp by (simp add: fragment_post_def)
  have "distinct (accept_states n2)" using inv2 by (simp add: thompson_inv_def)
  then have acc4: "accept_states ?n4 = accept_states n @ [accept f]"
    unfolding discard_accept_fields a3 acc2 by (rule removeAll_distinct_mid)
  have "fragment_post n c f ?n4 c2"
    unfolding fragment_post_def
    using thompson_inv_discard [OF inv3, of "accept xf"] xp fp acc4 k3 s3
    by (auto simp: fragment_post_def)
  then show ?case
    by (simp add: x np u Let_def)
next
  case (PLUS x)
  from PLUS.IH [OF PLUS.prems] obtain xf n1 c1
    where x: "build_fragment x (n, c) = Inr (xf, n1, c1)" and xp: "fragment_post n c xf n1 c1"
    by blast
  from xp have inv1: "thompson_inv n1 c1" by (simp add: fragment_post_def)
  obtain f n2 c2 where np: "new_pair (n1, c1) = (f, n2, c2)"
    by (cases "new_pair (n1, c1)")
  from new_pair_post [OF inv1 np] have fp: "fragment_post n1 c1 f n2 c2" .
  then have inv2: "thompson_inv n2 c2" by (simp add: fragment_post_def)
  have in2: "accept xf \<in> set (dict_keys (states n2))"
    using xp fp by (auto simp: fragment_post_def)
  from unset_accept_flag_post [OF inv2 in2] obtain n3
    where u: "unset_accept_flag (accept xf) n2 = Inr n3" and inv3: "thompson_inv n3 c2"
      and k3: "dict_keys (states n3) = dict_keys (states n2)"
      and a3: "accept_states n3 = accept_states n2" and s3: "start_state n3 = start_state n2"
    by blast
  let ?n4 = "discard_accept (accept xf) n3"
  have acc2: "accept_states n2 = accept_states n @ accept xf # [accept f]"
    using xp fp by (simp add: fragment_post_def)
  have "distinct (accept_states n2)" using inv2 by (simp add: thompson_inv_def)
  then have acc4: "accept_states ?n4 = accept_states n @ [accept f]"
    unfolding discard_accept_fields a3 acc2 by (rule removeAll_distinct_mid)
  have "fragment_post n c f ?n4 c2"
    unfolding fragment_post_def
    using thompson_inv_discard [OF inv3, of "accept xf"] xp fp acc4 k3 s3
    by (auto simp: fragment_post_def)
  then show ?case
    by (simp add: x np u Let_def)
qed

definition start_flagged :: "nfa \<Rightarrow> pystr list" where
  "start_flagged n = map fst (filter (\<lambda>(q, st). is_start st) (states n))"

lemma filter_update_unique:
  assumes "distinct (map fst al)" and "k \<in> fst ` set al"
    and "\<forall>x \<in> snd ` set al. \<not> P x" and "P v"
  shows "filter (\<lambda>(q, st). P st) (AList.update k v al) = [(k, v)]"
  using assms
proof (induction al)
  case Nil
  then show ?case by simp
next
  case (Cons p al)
  obtain q st where p: "p = (q, st)" by (cases p)
  show ?case
  proof (cases "q = k")
    case True
    with Cons.prems p have "filter (\<lambda>(q, st). P st) al = []"
      by (auto simp: filter_empty_conv)
    with True p Cons.prems show ?thesis by simp
  next
    case False
    with Cons p show ?thesis by auto
  qed
qed

lemma thompson_inv_empty: "thompson_inv NFA 0"
  by (simp add: thompson_inv_def NFA_def dict_keys_def)

lemma thompson_ast_post:
  "\<exists>n s a. thompson_ast ast = Inr n \<and> start_state n = Some s \<and> start_flagged n = [s]
     \<and> accept_states n = [a]"
proof -
  from build_fragment_post [OF thompson_inv_empty, of ast] obtain f n c
    where b: "build_fragment ast (NFA, 0) = Inr (f, n, c)" and post: "fragment_post NFA 0 f n c"
    by blast
  from post have inv: "thompson_inv n c" and key: "start f \<in> set (dict_keys (states n))"
    and acc: "accept_states n = [accept f]"
    by (simp_all add: fragment_post_def NFA_def)
  from key obtain st where st: "dict_get (states n) (start f) = Some st"
    by (auto simp: dict_get_def dict_keys_def dest: weak_map_of_SomeI)
  let ?n' = "n\<lparr>start_state := Some (start f),
                states := dict_set (start f) (st\<lparr>is_start := True\<rparr>) (states n)\<rparr>"
  have r: "thompson_ast ast = Inr ?n'"
    by (simp add: thompson_ast_def b set_start_flag_def st)
  have "filter (\<lambda>(q, st). is_start st) (AList.update (start f) (st\<lparr>is_start := True\<rparr>) (states n))
          = [(start f, st\<lparr>is_start := True\<rparr>)]"
    using inv key by (intro filter_update_unique) (auto simp: thompson_inv_def dict_keys_def)
  then have "start_flagged ?n' = [start f]"
    by (simp add: start_flagged_def dict_set_def)
  with r acc show ?thesis by simp
qed

text \<open>
  C7.  For every regex string that \<open>parse_regex\<close> accepts, \<open>thompson_construction\<close>
  returns an automaton (no \<open>KeyError\<close> is raised) whose \<open>start_state\<close> is set, in which
  exactly one state carries the \<open>is_start\<close> flag, namely the start state, and whose
  \<open>accept_states\<close> set has exactly one element.
\<close>

theorem thompson_one_start_one_accept:
  assumes "parse_regex regex = Inr ast"
  shows "\<exists>n s a. thompson_construction regex = Inr n \<and> start_state n = Some s
           \<and> start_flagged n = [s] \<and> accept_states n = [a]"
  using assms thompson_ast_post [of ast] by (simp add: thompson_construction_def)

theorem thompson_one_start_one_accept_witness:
  "parse_regex (py ''a|b'') = Inr (OR (CHARACTER (py ''a'')) (CHARACTER (py ''b'')))
   \<and> (\<exists>n s a. thompson_construction (py ''a|b'') = Inr n \<and> start_state n = Some s
           \<and> start_flagged n = [s] \<and> accept_states n = [a])"
proof -
  have h: "parse_regex (py ''a|b'') = Inr (OR (CHARACTER (py ''a'')) (CHARACTER (py ''b'')))"
    by code_simp
  from thompson_one_start_one_accept [OF h] h show ?thesis by blast
qed

section \<open>algorithms/subset_construction.py\<close>

text \<open>
  A \<open>for\<close> loop whose body may raise: the first exception ends the loop and is the
  result.
\<close>

fun for_each :: "('a \<Rightarrow> 's \<Rightarrow> error + 's) \<Rightarrow> 'a list \<Rightarrow> 's \<Rightarrow> error + 's" where
  "for_each body [] s = Inr s"
| "for_each body (x # xs) s =
     (case body x s of Inl e \<Rightarrow> Inl e | Inr s' \<Rightarrow> for_each body xs s')"

text \<open>
  The functions of this module call \<open>get_transitions(state, symbol)\<close> on the automaton
  they are given.  \<open>Automaton\<close>, \<open>NFA\<close> and \<open>EpsilonNFA\<close> define no attribute of that
  name (the lookup method of \<open>NFA\<close> is \<open>get_next_states\<close>), so reading
  \<open>nfa.get_transitions\<close> raises \<open>AttributeError\<close>, whatever the automaton and the
  arguments are.  The state may be \<open>None\<close> (a start state that was never set).
\<close>

definition get_transitions :: "nfa \<Rightarrow> pystr option \<Rightarrow> pystr \<Rightarrow> error + pystr pyset" where
  "get_transitions n q c = Inl AttributeError"

text \<open>
  \<open>epsilon_closure(nfa, states)\<close>: the worklist is a Python list used as a stack,
  \<open>pop()\<close> takes its last element.
\<close>

function closure_loop :: "nfa \<Rightarrow> pystr pyset \<Rightarrow> pystr list \<Rightarrow> error + pystr pyset" where
  "closure_loop n closure stk =
     (if stk = [] then Inr closure
      else case get_transitions n (Some (last stk)) EPS of
             Inl e \<Rightarrow> Inl e
           | Inr next_states \<Rightarrow>
               (case fold visit next_states (closure, butlast stk) of
                  (closure', stk') \<Rightarrow> closure_loop n closure' stk'))"
  by pat_completeness auto
termination
  by (relation "{}") (simp_all add: get_transitions_def)

definition epsilon_closure :: "nfa \<Rightarrow> pystr pyset \<Rightarrow> error + pystr pyset" where
  "epsilon_closure n S = closure_loop n S S"

definition symbol_targets :: "nfa \<Rightarrow> pystr pyset \<Rightarrow> pystr \<Rightarrow> error + pystr pyset" where
  "symbol_targets enfa e_closure c =
     for_each (\<lambda>s next_states.
                 case get_transitions enfa (Some s) c of
                   Inl e \<Rightarrow> Inl e
                 | Inr ts \<Rightarrow> Inr (set_update next_states ts))
       e_closure []"

definition eliminate_symbol :: "nfa \<Rightarrow> pystr \<Rightarrow> pystr pyset \<Rightarrow> pystr \<Rightarrow> nfa \<Rightarrow> error + nfa" where
  "eliminate_symbol enfa q e_closure c n =
     (if c = EPS then Inr n
      else case symbol_targets enfa e_closure c of
             Inl e \<Rightarrow> Inl e
           | Inr next_states \<Rightarrow>
               if next_states \<noteq> [] then
                 (case epsilon_closure enfa next_states of
                    Inl e \<Rightarrow> Inl e
                  | Inr final_states \<Rightarrow>
                      Inr (fold (\<lambda>target. nfa_add_transition q target c) final_states n))
               else Inr n)"

definition eliminate_state :: "nfa \<Rightarrow> pystr \<Rightarrow> nfa \<Rightarrow> error + nfa" where
  "eliminate_state enfa q n =
     (case epsilon_closure enfa [q] of
        Inl e \<Rightarrow> Inl e
      | Inr e_closure \<Rightarrow>
          let n1 = (if \<exists>s \<in> set e_closure. s \<in> set (accept_states enfa)
                    then n\<lparr>accept_states := set_add q (accept_states n)\<rparr> else n)
          in for_each (eliminate_symbol enfa q e_closure) (alphabet enfa) n1)"

definition epsilon_nfa_to_nfa :: "nfa \<Rightarrow> error + nfa" where
  "epsilon_nfa_to_nfa enfa =
     (let n1 = fold (\<lambda>q. add_state q False False) (dict_keys (states enfa)) NFA;
          n2 = n1\<lparr>start_state := start_state enfa\<rparr>
      in for_each (eliminate_state enfa) (dict_keys (states enfa)) n2)"

text \<open>
  A \<open>frozenset\<close> of NFA states is modelled by the sorted list of its elements, so that
  two keys are equal exactly when they hold the same elements.  The elements are
  optional names, since the start subset is \<open>frozenset({nfa.start_state})\<close> also when
  no start state was set.
\<close>

type_synonym subset = "pystr option list"

definition frozenset :: "pystr option list \<Rightarrow> subset" where
  "frozenset xs = sort (remdups xs)"

record conversion =
  conv_dfa :: dfa
  state_map :: "(subset, pystr) pydict"
  state_counter :: nat

definition get_dfa_state :: "nfa \<Rightarrow> subset \<Rightarrow> conversion \<Rightarrow> error + pystr \<times> conversion" where
  "get_dfa_state n S cv =
     (let cv' =
        (if S \<notin> set (dict_keys (state_map cv)) then
           let k = state_counter cv + 1;
               dfa_state = state_name k;
               d1 = add_state dfa_state False False (conv_dfa cv);
               d2 = (if \<exists>s \<in> set S. s \<in> Some ` set (accept_states n)
                     then d1\<lparr>accept_states := set_add dfa_state (accept_states d1)\<rparr> else d1)
           in \<lparr>conv_dfa = d2, state_map = dict_set S dfa_state (state_map cv), state_counter = k\<rparr>
         else cv)
      in case dict_get (state_map cv') S of
           None \<Rightarrow> Inl KeyError
         | Some dfa_state \<Rightarrow> Inr (dfa_state, cv'))"

definition successor_set :: "nfa \<Rightarrow> subset \<Rightarrow> pystr \<Rightarrow> error + pystr pyset" where
  "successor_set n S c =
     for_each (\<lambda>nfa_state next_states.
                 case get_transitions n nfa_state c of
                   Inl e \<Rightarrow> Inl e
                 | Inr ts \<Rightarrow> Inr (set_update next_states ts))
       S []"

text \<open>
  The body of \<open>for symbol in nfa.alphabet\<close>, for the subset being processed and its DFA
  state; it returns the conversion state and the queue, or the exception.
\<close>

definition process_symbol ::
  "nfa \<Rightarrow> subset \<Rightarrow> pystr \<Rightarrow> subset pyset \<Rightarrow> pystr \<Rightarrow>
     conversion \<times> subset list \<Rightarrow> error + conversion \<times> subset list" where
  "process_symbol n current_set current_dfa_state processed c = (\<lambda>(cv, queue).
     case successor_set n current_set c of
       Inl e \<Rightarrow> Inl e
     | Inr next_states \<Rightarrow>
         if next_states \<noteq> [] then
           (case get_dfa_state n (frozenset (map Some next_states)) cv of
              Inl e \<Rightarrow> Inl e
            | Inr (next_dfa_state, cv1) \<Rightarrow>
                (case dfa_add_transition current_dfa_state next_dfa_state c (conv_dfa cv1) of
                   (Some e, _) \<Rightarrow> Inl e
                 | (None, d) \<Rightarrow>
                     Inr (cv1\<lparr>conv_dfa := d\<rparr>,
                          if frozenset (map Some next_states) \<notin> set processed
                          then queue @ [frozenset (map Some next_states)] else queue)))
         else Inr (cv, queue))"

lemma for_each_raises:
  assumes "\<And>x s. body x s = Inl e" and "xs \<noteq> []"
  shows "for_each body xs s = Inl e"
  using assms by (cases xs) simp_all

lemma for_each_returns:
  assumes "\<And>x s. body x s = Inl e" and "for_each body xs s = Inr s'"
  shows "xs = [] \<and> s' = s"
  using assms by (cases xs) simp_all

lemma successor_set_returns: "successor_set n S c = Inr next_states \<Longrightarrow> next_states = []"
  unfolding successor_set_def
  by (drule for_each_returns [rotated]) (simp_all add: get_transitions_def)

lemma process_symbol_returns:
  "process_symbol n S nm processed c (cv, queue) = Inr (cv', queue') \<Longrightarrow> queue' = queue"
  by (auto simp: process_symbol_def split: sum.splits if_splits dest: successor_set_returns)

lemma for_each_process_symbol_returns:
  "for_each (process_symbol n S nm processed) cs (cv, queue) = Inr (cv', queue')
     \<Longrightarrow> queue' = queue"
proof (induction cs arbitrary: cv queue)
  case Nil
  then show ?case by simp
next
  case (Cons c cs)
  then show ?case
    by (auto split: sum.splits dest: process_symbol_returns)
qed

function subset_loop ::
  "nfa \<Rightarrow> conversion \<Rightarrow> subset list \<Rightarrow> subset pyset \<Rightarrow> error + conversion" where
  "subset_loop n cv [] processed = Inr cv"
| "subset_loop n cv (current_set # queue) processed =
     (if current_set \<in> set processed then subset_loop n cv queue processed
      else case get_dfa_state n current_set cv of
             Inl e \<Rightarrow> Inl e
           | Inr (current_dfa_state, cv1) \<Rightarrow>
               (case for_each (process_symbol n current_set current_dfa_state
                                 (set_add current_set processed))
                       (alphabet n) (cv1, queue) of
                  Inl e \<Rightarrow> Inl e
                | Inr (cv2, queue') \<Rightarrow>
                    subset_loop n cv2 queue' (set_add current_set processed)))"
  by pat_completeness auto
termination
proof (relation "measure (\<lambda>(n, cv, queue, processed). length queue)", goal_cases)
  case (3 n cv current_set queue processed x2 current_dfa_state cv1 x2a cv2 queue')
  then have "for_each (process_symbol n current_set current_dfa_state
                         (set_add current_set processed)) (alphabet n) (cv1, queue)
               = Inr (cv2, queue')"
    by simp
  from for_each_process_symbol_returns [OF this] show ?case by simp
qed simp_all

definition nfa_to_dfa_run :: "nfa \<Rightarrow> error + conversion" where
  "nfa_to_dfa_run n =
     (let start_state_set = frozenset [start_state n]
      in case get_dfa_state n start_state_set
                \<lparr>conv_dfa = DFA, state_map = [], state_counter = 0\<rparr> of
           Inl e \<Rightarrow> Inl e
         | Inr (start_dfa_state, cv) \<Rightarrow>
             subset_loop n (cv\<lparr>conv_dfa := (conv_dfa cv)\<lparr>start_state := Some start_dfa_state\<rparr>\<rparr>)
               [start_state_set] [])"

definition nfa_to_dfa :: "nfa \<Rightarrow> error + dfa" where
  "nfa_to_dfa n = (case nfa_to_dfa_run n of Inl e \<Rightarrow> Inl e | Inr cv \<Rightarrow> Inr (conv_dfa cv))"

section \<open>algorithms/minimization.py\<close>

text \<open>
  The functions of this module call \<open>get_transition(state, symbol)\<close> on the DFA.
  \<open>Automaton\<close> and \<open>DFA\<close> define no attribute of that name (the lookup method of \<open>DFA\<close>
  is \<open>get_next_state\<close>), so reading \<open>dfa.get_transition\<close> raises \<open>AttributeError\<close>,
  whatever the automaton and the arguments are.  The state may be \<open>None\<close> (a start
  state that was never set).
\<close>

definition get_transition :: "dfa \<Rightarrow> pystr option \<Rightarrow> pystr \<Rightarrow> error + pystr option" where
  "get_transition d q c = Inl AttributeError"

text \<open>The truth value of an optional string: \<open>None\<close> and the empty string are false.\<close>

definition truthy :: "pystr option \<Rightarrow> bool" where
  "truthy x \<longleftrightarrow> x \<noteq> None \<and> x \<noteq> Some []"

definition push_successor ::
  "dfa \<Rightarrow> pystr option \<Rightarrow> pystr option pyset \<Rightarrow> pystr \<Rightarrow> pystr option list
     \<Rightarrow> error + pystr option list" where
  "push_successor d q reachable c stk =
     (case get_transition d q c of
        Inl e \<Rightarrow> Inl e
      | Inr next_state \<Rightarrow>
          Inr (if truthy next_state \<and> next_state \<notin> set reachable
               then stk @ [next_state] else stk))"

lemma for_each_push_successor_returns:
  "for_each (push_successor d q reachable) cs stk = Inr stk' \<Longrightarrow> stk' = stk"
  by (drule for_each_returns [rotated]) (simp_all add: push_successor_def get_transition_def)

function reachable_loop ::
  "dfa \<Rightarrow> pystr option pyset \<Rightarrow> pystr option list \<Rightarrow> error + pystr option pyset" where
  "reachable_loop d reachable stk =
     (if stk = [] then Inr reachable
      else if last stk \<in> set reachable then reachable_loop d reachable (butlast stk)
      else case for_each (push_successor d (last stk) (set_add (last stk) reachable))
                  (alphabet d) (butlast stk) of
             Inl e \<Rightarrow> Inl e
           | Inr stk' \<Rightarrow> reachable_loop d (set_add (last stk) reachable) stk')"
  by pat_completeness auto
termination
proof (relation "measure (\<lambda>(d, reachable, stk). length stk)", goal_cases)
  case (3 d reachable stk stk')
  from for_each_push_successor_returns [OF 3(3)] 3(1) show ?case by simp
qed simp_all

definition find_reachable_states :: "dfa \<Rightarrow> error + pystr option pyset" where
  "find_reachable_states d = reachable_loop d [] [start_state d]"

fun index_from :: "int \<Rightarrow> 'a \<Rightarrow> 'a list list \<Rightarrow> int" where
  "index_from i x [] = -1"
| "index_from i x (p # ps) = (if x \<in> set p then i else index_from (i + 1) x ps)"

definition signature :: "dfa \<Rightarrow> pystr option pyset list \<Rightarrow> pystr option \<Rightarrow> error + int list" where
  "signature d all_partitions q =
     for_each (\<lambda>c sig.
                 case get_transition d q c of
                   Inl e \<Rightarrow> Inl e
                 | Inr next_state \<Rightarrow> Inr (sig @ [index_from 0 next_state all_partitions]))
       (sort (alphabet d)) []"

definition add_to_signature ::
  "dfa \<Rightarrow> pystr option pyset list \<Rightarrow> pystr option \<Rightarrow>
     (int list, pystr option pyset) pydict \<Rightarrow> error + (int list, pystr option pyset) pydict" where
  "add_to_signature d all_partitions q signatures =
     (case signature d all_partitions q of
        Inl e \<Rightarrow> Inl e
      | Inr sig \<Rightarrow>
          Inr (case dict_get signatures sig of
                 None \<Rightarrow> dict_set sig [q] signatures
               | Some members \<Rightarrow> dict_set sig (set_add q members) signatures))"

definition split_partition ::
  "dfa \<Rightarrow> pystr option pyset \<Rightarrow> pystr option pyset list \<Rightarrow> error + pystr option pyset list" where
  "split_partition d part all_partitions =
     (if length part \<le> 1 then Inr [part]
      else case for_each (add_to_signature d all_partitions) part [] of
             Inl e \<Rightarrow> Inl e
           | Inr signatures \<Rightarrow> Inr (map snd signatures))"

definition refine_step ::
  "dfa \<Rightarrow> pystr option pyset list \<Rightarrow> pystr option pyset \<Rightarrow>
     bool \<times> pystr option pyset list \<Rightarrow> error + bool \<times> pystr option pyset list" where
  "refine_step d partitions part = (\<lambda>(changed, new_partitions).
     case split_partition d part partitions of
       Inl e \<Rightarrow> Inl e
     | Inr split \<Rightarrow>
         Inr (if length split > 1 then (True, new_partitions @ split)
              else (changed, new_partitions @ [part])))"

definition refine_pass ::
  "dfa \<Rightarrow> pystr option pyset list \<Rightarrow> error + bool \<times> pystr option pyset list" where
  "refine_pass d partitions = for_each (refine_step d partitions) partitions (False, [])"

text \<open>
  A signature is computed only when no symbol has to be looked up, so every state of a
  block gets the empty signature and a block is never split: a pass that returns has
  changed nothing.
\<close>

lemma signature_returns: "signature d P q = Inr sig \<Longrightarrow> sig = []"
  unfolding signature_def
  by (drule for_each_returns [rotated]) (simp_all add: get_transition_def)

definition one_group :: "(int list, pystr option pyset) pydict \<Rightarrow> bool" where
  "one_group signatures \<longleftrightarrow> signatures = [] \<or> (\<exists>members. signatures = [([], members)])"

lemma add_to_signature_one_group:
  assumes "add_to_signature d P q signatures = Inr signatures'" and "one_group signatures"
  shows "one_group signatures'"
proof -
  from assms(1) obtain sig where s: "signature d P q = Inr sig"
    by (auto simp: add_to_signature_def split: sum.splits)
  from signature_returns [OF this] have "sig = []" .
  with assms s show ?thesis
    by (auto simp: add_to_signature_def one_group_def dict_get_def dict_set_def)
qed

lemma for_each_add_to_signature_one_group:
  "for_each (add_to_signature d P) part signatures = Inr signatures' \<Longrightarrow> one_group signatures
     \<Longrightarrow> one_group signatures'"
proof (induction part arbitrary: signatures)
  case Nil
  then show ?case by simp
next
  case (Cons q part)
  then show ?case
    by (auto split: sum.splits dest: add_to_signature_one_group)
qed

lemma split_partition_returns: "split_partition d part P = Inr split \<Longrightarrow> length split \<le> 1"
proof (cases "length part \<le> 1")
  case True
  assume "split_partition d part P = Inr split"
  with True show ?thesis by (auto simp: split_partition_def)
next
  case False
  assume "split_partition d part P = Inr split"
  with False obtain signatures
    where f: "for_each (add_to_signature d P) part [] = Inr signatures"
      and s: "split = map snd signatures"
    by (auto simp: split_partition_def split: sum.splits)
  from for_each_add_to_signature_one_group [OF f] have "one_group signatures"
    by (simp add: one_group_def)
  with s show ?thesis by (auto simp: one_group_def)
qed

lemma for_each_refine_step_returns:
  "for_each (refine_step d P) parts (changed, new_partitions) = Inr (changed', new_partitions')
     \<Longrightarrow> changed' = changed"
proof (induction parts arbitrary: changed new_partitions)
  case Nil
  then show ?case by simp
next
  case (Cons part parts)
  from Cons.prems obtain split
    where s: "split_partition d part P = Inr split"
    by (auto simp: refine_step_def split: sum.splits)
  from split_partition_returns [OF s] have "\<not> length split > 1" by simp
  with s have "refine_step d P part (changed, new_partitions)
                 = Inr (changed, new_partitions @ [part])"
    by (simp add: refine_step_def)
  with Cons.prems
  have "for_each (refine_step d P) parts (changed, new_partitions @ [part])
          = Inr (changed', new_partitions')"
    by simp
  from Cons.IH [OF this] show ?case .
qed

lemma refine_pass_returns: "refine_pass d P = Inr (changed, new_partitions) \<Longrightarrow> \<not> changed"
  unfolding refine_pass_def by (drule for_each_refine_step_returns) simp

function refine_loop ::
  "dfa \<Rightarrow> pystr option pyset list \<Rightarrow> error + pystr option pyset list" where
  "refine_loop d partitions =
     (case refine_pass d partitions of
        Inl e \<Rightarrow> Inl e
      | Inr (changed, new_partitions) \<Rightarrow>
          if changed then refine_loop d new_partitions else Inr new_partitions)"
  by pat_completeness auto
termination
  by (relation "{}") (auto dest: refine_pass_returns)

subsection \<open>Building the minimized DFA\<close>

record builder =
  minimized :: dfa
  rep_map :: "(pystr option, pystr) pydict"

definition map_state :: "dfa \<Rightarrow> pystr \<Rightarrow> pystr option \<Rightarrow> builder \<Rightarrow> builder" where
  "map_state original_dfa rep q b =
     (let b1 = b\<lparr>rep_map := dict_set q rep (rep_map b)\<rparr>
      in if q \<in> Some ` set (accept_states original_dfa)
         then b1\<lparr>minimized := (minimized b1)\<lparr>accept_states :=
                   set_add rep (accept_states (minimized b1))\<rparr>\<rparr>
         else b1)"

definition add_block :: "dfa \<Rightarrow> nat \<times> pystr option pyset \<Rightarrow> builder \<Rightarrow> builder" where
  "add_block original_dfa = (\<lambda>(i, part) b.
     let rep = state_name i;
         b1 = b\<lparr>minimized := add_state rep False False (minimized b)\<rparr>
     in fold (map_state original_dfa rep) part b1)"

definition add_rep_transition ::
  "dfa \<Rightarrow> (pystr option, pystr) pydict \<Rightarrow> pystr option \<Rightarrow> pystr \<Rightarrow> pystr \<Rightarrow>
     dfa \<times> (pystr \<times> pystr) pyset \<Rightarrow> error + dfa \<times> (pystr \<times> pystr) pyset" where
  "add_rep_transition original_dfa smap sample_state rep_state c = (\<lambda>(m, added_transitions).
     case get_transition original_dfa sample_state c of
       Inl e \<Rightarrow> Inl e
     | Inr next_state \<Rightarrow>
         if truthy next_state then
           (case dict_get smap next_state of
              None \<Rightarrow> Inl KeyError
            | Some next_rep \<Rightarrow>
                if (rep_state, c) \<notin> set added_transitions then
                  (case dfa_add_transition rep_state next_rep c m of
                     (Some e, _) \<Rightarrow> Inl e
                   | (None, m') \<Rightarrow> Inr (m', set_add (rep_state, c) added_transitions))
                else Inr (m, added_transitions))
         else Inr (m, added_transitions))"

definition add_block_transitions ::
  "dfa \<Rightarrow> (pystr option, pystr) pydict \<Rightarrow> pystr option pyset \<Rightarrow>
     dfa \<times> (pystr \<times> pystr) pyset \<Rightarrow> error + dfa \<times> (pystr \<times> pystr) pyset" where
  "add_block_transitions original_dfa smap part st =
     (case part of
        [] \<Rightarrow> Inl StopIteration
      | sample_state # _ \<Rightarrow>
          (case dict_get smap sample_state of
             None \<Rightarrow> Inl KeyError
           | Some rep_state \<Rightarrow>
               for_each (add_rep_transition original_dfa smap sample_state rep_state)
                 (alphabet original_dfa) st))"

definition build_minimized_dfa :: "dfa \<Rightarrow> pystr option pyset list \<Rightarrow> error + dfa" where
  "build_minimized_dfa original_dfa partitions =
     (let b = fold (add_block original_dfa) (zip [0..<length partitions] partitions)
                \<lparr>minimized = DFA, rep_map = []\<rparr>
      in case dict_get (rep_map b) (start_state original_dfa) of
           None \<Rightarrow> Inl KeyError
         | Some start_rep \<Rightarrow>
             (case for_each (add_block_transitions original_dfa (rep_map b)) partitions
                     ((minimized b)\<lparr>start_state := Some start_rep\<rparr>, []) of
                Inl e \<Rightarrow> Inl e
              | Inr (m, _) \<Rightarrow> Inr m))"

definition initial_partitions :: "dfa \<Rightarrow> pystr option pyset \<Rightarrow> pystr option pyset list" where
  "initial_partitions d reachable =
     (let accept = filter (\<lambda>q. q \<in> Some ` set (accept_states d)) reachable;
          non_accept = filter (\<lambda>q. q \<notin> Some ` set (accept_states d)) reachable
      in (if accept \<noteq> [] then [accept] else []) @ (if non_accept \<noteq> [] then [non_accept] else []))"

definition minimize_dfa :: "dfa \<Rightarrow> error + dfa" where
  "minimize_dfa d =
     (case find_reachable_states d of
        Inl e \<Rightarrow> Inl e
      | Inr reachable \<Rightarrow>
          (case refine_loop d (initial_partitions d reachable) of
             Inl e \<Rightarrow> Inl e
           | Inr partitions \<Rightarrow> build_minimized_dfa d partitions))"

section \<open>algorithms/conversions.py\<close>

text \<open>
  \<open>mealy_to_moore\<close> and \<open>moore_to_mealy\<close> read \<open>output_function\<close> on both kinds of
  machine and call \<open>transitions.items()\<close>.  Neither \<open>MealyMachine\<close>, \<open>MooreMachine\<close> nor
  \<open>Automaton\<close> defines \<open>output_function\<close> (their tables are \<open>_transition_table\<close> and
  \<open>state_outputs\<close>), and \<open>transitions\<close> is the list of \<open>Transition\<close> objects of
  \<open>Automaton\<close>, which has no method \<open>items\<close>: each of these raises \<open>AttributeError\<close>.
  \<open>MooreMachine.add_state(name, is_accept, is_start)\<close> takes no keyword \<open>output\<close>, so the
  call \<open>moore.add_state(moore_state, output=...)\<close> raises \<open>TypeError\<close>.
\<close>

definition output_function :: "mealy \<Rightarrow> error + (pystr option \<times> pystr, pystr) pydict" where
  "output_function m = Inl AttributeError"

definition moore_output_function :: "moore \<Rightarrow> error + (pystr, pystr) pydict" where
  "moore_output_function m = Inl AttributeError"

definition transitions_items ::
  "'a automaton_scheme \<Rightarrow> error + ((pystr \<times> pystr) \<times> pystr) list" where
  "transitions_items a = Inl AttributeError"

definition add_state_with_output :: "pystr \<Rightarrow> pystr option \<Rightarrow> moore \<Rightarrow> error + moore" where
  "add_state_with_output q out m = Inl TypeError"

text \<open>The body of \<open>for symbol in mealy.alphabet\<close> that collects the outputs of a state.\<close>

definition collect_output :: "mealy \<Rightarrow> pystr \<Rightarrow> pystr \<Rightarrow> pystr pyset \<Rightarrow> error + pystr pyset" where
  "collect_output m q c outputs =
     (case output_function m of
        Inl e \<Rightarrow> Inl e
      | Inr f \<Rightarrow>
          Inr (case dict_get f (Some q, c) of
                 None \<Rightarrow> outputs
               | Some out \<Rightarrow> set_add out outputs))"

definition add_output_state ::
  "pystr \<Rightarrow> pystr \<Rightarrow> moore \<times> (pystr option \<times> pystr option, pystr) pydict
     \<Rightarrow> error + moore \<times> (pystr option \<times> pystr option, pystr) pydict" where
  "add_output_state q out = (\<lambda>(mo, smap).
     let moore_state = q @ py ''_'' @ out
     in case add_state_with_output moore_state (Some out) mo of
          Inl e \<Rightarrow> Inl e
        | Inr mo' \<Rightarrow> Inr (mo', dict_set (Some q, Some out) moore_state smap))"

definition convert_state ::
  "mealy \<Rightarrow> pystr \<Rightarrow> moore \<times> (pystr option \<times> pystr option, pystr) pydict
     \<Rightarrow> error + moore \<times> (pystr option \<times> pystr option, pystr) pydict" where
  "convert_state m q = (\<lambda>(mo, smap).
     case for_each (collect_output m q) (alphabet m) [] of
       Inl e \<Rightarrow> Inl e
     | Inr outputs \<Rightarrow>
         if outputs = [] then
           (case add_state_with_output q None mo of
              Inl e \<Rightarrow> Inl e
            | Inr mo' \<Rightarrow> Inr (mo', dict_set (Some q, None) q smap))
         else for_each (add_output_state q) outputs (mo, smap))"

text \<open>
  The loop that looks for the output of the first transition of a state and leaves
  with \<open>break\<close>.
\<close>

fun first_output :: "mealy \<Rightarrow> pystr option \<Rightarrow> pystr list \<Rightarrow> error + pystr option" where
  "first_output m q [] = Inr None"
| "first_output m q (c # cs) =
     (case output_function m of
        Inl e \<Rightarrow> Inl e
      | Inr f \<Rightarrow>
          (case dict_get f (q, c) of
             Some out \<Rightarrow> Inr (Some out)
           | None \<Rightarrow> first_output m q cs))"

definition convert_transition ::
  "mealy \<Rightarrow> (pystr option \<times> pystr option, pystr) pydict \<Rightarrow> (pystr \<times> pystr) \<times> pystr
     \<Rightarrow> moore \<Rightarrow> error + moore" where
  "convert_transition m smap = (\<lambda>((f, c), t) mo.
     case output_function m of
       Inl e \<Rightarrow> Inl e
     | Inr fn \<Rightarrow>
         (case first_output m (Some t) (alphabet m) of
            Inl e \<Rightarrow> Inl e
          | Inr next_output \<Rightarrow>
              (case dict_get smap (Some f, dict_get fn (Some f, c)) of
                 None \<Rightarrow> Inl KeyError
               | Some moore_from \<Rightarrow>
                   (case dict_get smap (Some t, next_output) of
                      None \<Rightarrow> Inl KeyError
                    | Some moore_to \<Rightarrow> Inr (moore_add_transition moore_from moore_to c mo)))))"

definition mealy_to_moore :: "mealy \<Rightarrow> error + moore" where
  "mealy_to_moore m =
     (case for_each (convert_state m) (dict_keys (states m)) (MooreMachine, []) of
        Inl e \<Rightarrow> Inl e
      | Inr (mo, smap) \<Rightarrow>
          (case first_output m (start_state m) (alphabet m) of
             Inl e \<Rightarrow> Inl e
           | Inr start_output \<Rightarrow>
               (case dict_get smap (start_state m, start_output) of
                  None \<Rightarrow> Inl KeyError
                | Some s \<Rightarrow>
                    (case transitions_items m of
                       Inl e \<Rightarrow> Inl e
                     | Inr items \<Rightarrow>
                         for_each (convert_transition m smap) items
                           (mo\<lparr>start_state := Some s\<rparr>)))))"

text \<open>
  In \<open>moore_to_mealy\<close> the transition is added with three arguments, so \<open>output\<close> has
  its default \<open>None\<close>.
\<close>

definition copy_transition :: "moore \<Rightarrow> (pystr \<times> pystr) \<times> pystr \<Rightarrow> mealy \<Rightarrow> error + mealy" where
  "copy_transition mo = (\<lambda>((f, c), t) me.
     case mealy_add_transition f t c None me of
       (Some e, _) \<Rightarrow> Inl e
     | (None, me') \<Rightarrow>
         (case moore_output_function mo of
            Inl e \<Rightarrow> Inl e
          | Inr g \<Rightarrow>
              (case output_function me' of
                 Inl e \<Rightarrow> Inl e
               | Inr fn \<Rightarrow> Inr me')))"

definition moore_to_mealy :: "moore \<Rightarrow> error + mealy" where
  "moore_to_mealy mo =
     (let me1 = fold (\<lambda>q. add_state q False False) (dict_keys (states mo)) MealyMachine;
          me2 = me1\<lparr>start_state := start_state mo\<rparr>
      in case transitions_items mo of
           Inl e \<Rightarrow> Inl e
         | Inr items \<Rightarrow> for_each (copy_transition mo) items me2)"

section \<open>What the conversions return\<close>

lemma epsilon_closure_raises: "S \<noteq> [] \<Longrightarrow> epsilon_closure enfa S = Inl AttributeError"
  by (simp add: epsilon_closure_def get_transitions_def)

lemma epsilon_nfa_to_nfa_raises:
  "states enfa \<noteq> [] \<Longrightarrow> epsilon_nfa_to_nfa enfa = Inl AttributeError"
  by (cases "states enfa")
    (simp_all add: epsilon_nfa_to_nfa_def dict_keys_def eliminate_state_def epsilon_closure_raises)

lemma nfa_to_dfa_raises:
  assumes "alphabet n \<noteq> []"
  shows "nfa_to_dfa n = Inl AttributeError"
proof -
  obtain c cs where a: "alphabet n = c # cs" using assms by (cases "alphabet n") auto
  have s: "successor_set n [start_state n] c = Inl AttributeError"
    by (simp add: successor_set_def get_transitions_def)
  show ?thesis
    by (simp add: nfa_to_dfa_def nfa_to_dfa_run_def frozenset_def get_dfa_state_def Let_def
        dict_keys_def dict_set_def dict_get_def a process_symbol_def s)
qed

lemma minimize_dfa_raises:
  assumes "alphabet d \<noteq> []"
  shows "minimize_dfa d = Inl AttributeError"
proof -
  obtain c cs where a: "alphabet d = c # cs" using assms by (cases "alphabet d") auto
  show ?thesis
    by (simp add: minimize_dfa_def find_reachable_states_def a push_successor_def
        get_transition_def)
qed

lemma mealy_to_moore_raises: "\<exists>e. mealy_to_moore m = Inl e"
  by (simp add: mealy_to_moore_def transitions_items_def split: sum.splits option.splits prod.splits)

lemma moore_to_mealy_raises: "moore_to_mealy mo = Inl AttributeError"
  by (simp add: moore_to_mealy_def transitions_items_def)

definition simple_nfa :: nfa where
  "simple_nfa =
     nfa_add_transition (py ''q1'') (py ''q2'') (py ''a'')
       (nfa_add_transition (py ''q0'') (py ''q1'') (py ''b'')
          (nfa_add_transition (py ''q0'') (py ''q1'') (py ''a'')
             (add_state (py ''q2'') True False
                (add_state (py ''q1'') False False
                   (add_state (py ''q0'') False True NFA)))))"

definition minimal_dfa :: dfa where
  "minimal_dfa =
     snd (dfa_add_transition (py ''q1'') (py ''q0'') (py ''a'')
       (snd (dfa_add_transition (py ''q0'') (py ''q1'') (py ''a'')
          (add_state (py ''q1'') True False
             (add_state (py ''q0'') False True DFA)))))"

definition roundtrip_mealy :: mealy where
  "roundtrip_mealy =
     snd (mealy_add_transition (py ''S1'') (py ''S0'') (py ''b'') (Some (py ''1''))
       (snd (mealy_add_transition (py ''S0'') (py ''S1'') (py ''a'') (Some (py ''0''))
          (add_state (py ''S1'') False False
             (add_state (py ''S0'') False True MealyMachine)))))"

lemma thompson_states_nonempty:
  assumes "thompson_construction regex = Inr enfa"
  shows "states enfa \<noteq> []"
proof -
  from assms obtain ast where "thompson_ast ast = Inr enfa"
    by (auto simp: thompson_construction_def split: sum.splits)
  with thompson_ast_post [of ast] obtain s where "start_flagged enfa = [s]" by auto
  then show ?thesis by (auto simp: start_flagged_def)
qed

text \<open>
  C1.  The four machines cannot be compared, because the pipeline builds only the first
  of them.  For every regex that \<open>parse_regex\<close> accepts, \<open>thompson_construction\<close>
  returns an epsilon-NFA, and \<open>epsilon_nfa_to_nfa\<close> raises \<open>AttributeError\<close> on it: the
  automaton has a state, and the epsilon closure of the first state calls
  \<open>get_transitions\<close>.
\<close>

theorem pipeline_raises_after_thompson:
  assumes "parse_regex regex = Inr ast"
  shows "\<exists>enfa. thompson_construction regex = Inr enfa
           \<and> epsilon_nfa_to_nfa enfa = Inl AttributeError"
proof -
  from assms thompson_ast_post [of ast] obtain enfa
    where t: "thompson_construction regex = Inr enfa"
    by (auto simp: thompson_construction_def)
  from thompson_states_nonempty [OF t] have "epsilon_nfa_to_nfa enfa = Inl AttributeError"
    by (rule epsilon_nfa_to_nfa_raises)
  with t show ?thesis by blast
qed

theorem pipeline_raises_after_thompson_witness:
  "parse_regex (py ''a*b'') = Inr (CONCAT (STAR (CHARACTER (py ''a''))) (CHARACTER (py ''b'')))
   \<and> (\<exists>enfa. thompson_construction (py ''a*b'') = Inr enfa
           \<and> epsilon_nfa_to_nfa enfa = Inl AttributeError)
   \<and> (case thompson_construction (py ''a*b'') of
         Inl e \<Rightarrow> False
       | Inr enfa \<Rightarrow> enfa_accepts enfa (py ''b'') \<and> \<not> enfa_accepts enfa (py ''a''))"
proof -
  have h: "parse_regex (py ''a*b'')
             = Inr (CONCAT (STAR (CHARACTER (py ''a''))) (CHARACTER (py ''b'')))"
    by code_simp
  have a: "case thompson_construction (py ''a*b'') of
             Inl e \<Rightarrow> False
           | Inr enfa \<Rightarrow> enfa_accepts enfa (py ''b'') \<and> \<not> enfa_accepts enfa (py ''a'')"
    by code_simp
  from pipeline_raises_after_thompson [OF h] h a show ?thesis by blast
qed

text \<open>
  C6.  \<open>nfa_to_dfa\<close> produces no DFA for an NFA that has an input symbol: when the start
  subset is processed, the successor set for the first symbol is computed with
  \<open>nfa.get_transitions\<close>, which raises \<open>AttributeError\<close>.
\<close>

theorem subset_construction_raises:
  assumes "alphabet n \<noteq> []"
  shows "nfa_to_dfa n = Inl AttributeError"
  using assms by (rule nfa_to_dfa_raises)

theorem subset_construction_raises_witness:
  "alphabet simple_nfa \<noteq> [] \<and> nfa_accepts simple_nfa (py ''aa'')
   \<and> nfa_to_dfa simple_nfa = Inl AttributeError"
proof -
  have h: "alphabet simple_nfa \<noteq> []" by code_simp
  have a: "nfa_accepts simple_nfa (py ''aa'')" by code_simp
  from subset_construction_raises [OF h] h a show ?thesis by simp
qed

text \<open>
  C3.  \<open>minimize_dfa\<close> produces no DFA for a DFA that has an input symbol:
  \<open>find_reachable_states\<close> calls \<open>dfa.get_transition\<close> for the start state and the first
  symbol, which raises \<open>AttributeError\<close>.
\<close>

theorem minimization_raises:
  assumes "alphabet d \<noteq> []"
  shows "minimize_dfa d = Inl AttributeError"
  using assms by (rule minimize_dfa_raises)

theorem minimization_raises_witness:
  "alphabet minimal_dfa \<noteq> [] \<and> get_state_count minimal_dfa = 2
   \<and> dfa_accepts minimal_dfa (py ''a'')
   \<and> minimize_dfa minimal_dfa = Inl AttributeError"
proof -
  have h: "alphabet minimal_dfa \<noteq> []" by code_simp
  have a: "get_state_count minimal_dfa = 2 \<and> dfa_accepts minimal_dfa (py ''a'')" by code_simp
  from minimization_raises [OF h] h a show ?thesis by simp
qed

text \<open>
  C4.  The round trip produces no machine.  \<open>mealy_to_moore\<close> raises on every Mealy
  machine and \<open>moore_to_mealy\<close> raises \<open>AttributeError\<close> on every Moore machine.  On the
  machine of the repository's round-trip test, whose states have one outgoing
  transition each and which maps the input \<open>a\<close> to the outputs \<open>[0]\<close>,
  \<open>mealy_to_moore\<close> raises \<open>AttributeError\<close>.
\<close>

theorem mealy_moore_round_trip_raises:
  "mealy_process_input roundtrip_mealy (py ''a'') = (True, [py ''0''])
   \<and> mealy_to_moore roundtrip_mealy = Inl AttributeError
   \<and> (\<exists>e. mealy_to_moore m = Inl e)
   \<and> moore_to_mealy mo = Inl AttributeError"
proof -
  have "mealy_process_input roundtrip_mealy (py ''a'') = (True, [py ''0''])" by code_simp
  moreover have "mealy_to_moore roundtrip_mealy = Inl AttributeError" by code_simp
  ultimately show ?thesis
    using mealy_to_moore_raises [of m] moore_to_mealy_raises [of mo] by simp
qed

section \<open>The PDA acceptance search\<close>

definition config_key :: "PDAConfiguration \<Rightarrow> pystr \<times> pystr \<times> pystr list" where
  "config_key config = (state config, remaining_input config, stack config)"

definition successors :: "pda \<Rightarrow> PDAConfiguration \<Rightarrow> PDAConfiguration list" where
  "successors P config =
     (if stack_top config = None then []
      else map (apply_transition config)
             (get_applicable_transitions P (state config) (current_symbol config)
                (stack_top config)))"

definition pda_step :: "pda \<Rightarrow> PDAConfiguration \<Rightarrow> PDAConfiguration \<Rightarrow> bool" where
  "pda_step P c c' \<longleftrightarrow> c' \<in> set (successors P c)"

definition can_accept :: "pda \<Rightarrow> PDAConfiguration \<Rightarrow> bool" where
  "can_accept P c \<longleftrightarrow> (\<exists>c'. (pda_step P)\<^sup>*\<^sup>* c c' \<and> is_accepting P c')"

definition explored :: "pda \<Rightarrow> PDAConfiguration list \<Rightarrow> (pystr \<times> pystr \<times> pystr list) list \<Rightarrow> bool" where
  "explored P queue visited \<longleftrightarrow>
     (\<forall>c. config_key c \<in> set visited \<longrightarrow>
        \<not> is_accepting P c \<and>
        (\<forall>c'. pda_step P c c' \<longrightarrow> config_key c' \<in> set visited \<or> c' \<in> set queue))"

lemma config_key_inj: "config_key c = config_key c' \<Longrightarrow> c = c'"
  by (cases c, cases c') (simp add: config_key_def)

lemma explored_closed:
  assumes "explored P [] visited" and "(pda_step P)\<^sup>*\<^sup>* c c'" and "config_key c \<in> set visited"
  shows "config_key c' \<in> set visited"
  using assms(2,3)
proof (induction rule: rtranclp_induct)
  case base
  then show ?case .
next
  case (step y z)
  with assms(1) show ?case unfolding explored_def by auto
qed

lemma explored_no_accept:
  assumes "explored P [] visited" and "config_key c \<in> set visited"
  shows "\<not> can_accept P c"
proof
  assume "can_accept P c"
  then obtain c' where "(pda_step P)\<^sup>*\<^sup>* c c'" and acc: "is_accepting P c'"
    by (auto simp: can_accept_def)
  from explored_closed [OF assms(1) this(1) assms(2)] assms(1) acc show False
    unfolding explored_def by blast
qed

lemma can_accept_step: "pda_step P c c' \<Longrightarrow> can_accept P c' \<Longrightarrow> can_accept P c"
  unfolding can_accept_def by (meson converse_rtranclp_into_rtranclp)

lemma can_accept_self: "is_accepting P c \<Longrightarrow> can_accept P c"
  unfolding can_accept_def by blast

lemma can_accept_cases:
  "can_accept P c \<Longrightarrow> is_accepting P c \<or> (\<exists>c'. pda_step P c c' \<and> can_accept P c')"
  unfolding can_accept_def by (metis converse_rtranclpE)

lemma pda_search_cases:
  "pda_search P (config # rest) visited =
     (if config_key config \<in> set visited then pda_search P rest visited
      else if is_accepting P config then Some True
      else pda_search P (rest @ successors P config) (set_add (config_key config) visited))"
  by (subst pda_search.simps) (simp add: config_key_def successors_def)

lemma pda_search_Nil: "pda_search P [] visited = Some False"
  by (subst pda_search.simps) simp

lemma explored_step:
  assumes "explored P (config # rest) visited" and "\<not> is_accepting P config"
  shows "explored P (rest @ successors P config) (set_add (config_key config) visited)"
  unfolding explored_def
proof (intro allI impI)
  fix c assume "config_key c \<in> set (set_add (config_key config) visited)"
  then consider "config_key c \<in> set visited" | "c = config"
    by (auto simp: set_add_def dest: config_key_inj split: if_splits)
  then show "\<not> is_accepting P c \<and>
      (\<forall>c'. pda_step P c c' \<longrightarrow>
         config_key c' \<in> set (set_add (config_key config) visited) \<or>
         c' \<in> set (rest @ successors P config))"
  proof cases
    case 1
    with assms(1) have na: "\<not> is_accepting P c"
      and cl: "\<And>c'. pda_step P c c' \<Longrightarrow> config_key c' \<in> set visited \<or> c' \<in> set (config # rest)"
      unfolding explored_def by blast+
    have "config_key c' \<in> set (set_add (config_key config) visited) \<or>
         c' \<in> set (rest @ successors P config)" if "pda_step P c c'" for c'
      using cl [OF that] by (auto simp: set_add_def)
    with na show ?thesis by blast
  next
    case 2
    with assms(2) show ?thesis by (simp add: pda_step_def)
  qed
qed

lemma explored_skip:
  assumes "explored P (config # rest) visited" and "config_key config \<in> set visited"
  shows "explored P rest visited"
  unfolding explored_def
proof (intro allI impI)
  fix c assume c: "config_key c \<in> set visited"
  with assms(1) have na: "\<not> is_accepting P c"
    and cl: "\<And>c'. pda_step P c c' \<Longrightarrow> config_key c' \<in> set visited \<or> c' \<in> set (config # rest)"
    unfolding explored_def by blast+
  have "config_key c' \<in> set visited \<or> c' \<in> set rest" if "pda_step P c c'" for c'
    using cl [OF that] assms(2) by auto
  with na show "\<not> is_accepting P c \<and>
      (\<forall>c'. pda_step P c c' \<longrightarrow> config_key c' \<in> set visited \<or> c' \<in> set rest)"
    by blast
qed

text \<open>When the search returns, its verdict is exact.\<close>

definition verdict_ok ::
  "(pda \<times> PDAConfiguration list) \<times> (pystr \<times> pystr \<times> pystr list) list \<Rightarrow> bool \<Rightarrow> bool" where
  "verdict_ok = (\<lambda>((P, queue), visited) b.
     (b \<longrightarrow> (\<exists>c \<in> set queue. can_accept P c)) \<and>
     (\<not> b \<longrightarrow> explored P queue visited \<longrightarrow>
        (\<forall>c. c \<in> set queue \<or> config_key c \<in> set visited \<longrightarrow> \<not> can_accept P c)))"

lemma verdict_ok_Nil: "verdict_ok ((P, []), visited) False"
  using explored_no_accept [of P visited] by (simp add: verdict_ok_def)

lemma verdict_ok_skip:
  assumes "verdict_ok ((P, rest), visited) b" and "config_key config \<in> set visited"
  shows "verdict_ok ((P, config # rest), visited) b"
proof (cases b)
  case True
  with assms(1) show ?thesis by (auto simp: verdict_ok_def)
next
  case False
  have "\<not> can_accept P c"
    if "explored P (config # rest) visited" and "c \<in> set (config # rest) \<or> config_key c \<in> set visited"
    for c
  proof -
    from explored_skip [OF that(1) assms(2)] assms(1) False
    have all: "\<And>c. c \<in> set rest \<or> config_key c \<in> set visited \<Longrightarrow> \<not> can_accept P c"
      by (auto simp: verdict_ok_def)
    from that(2) assms(2) have "c \<in> set rest \<or> config_key c \<in> set visited" by auto
    then show ?thesis by (rule all)
  qed
  with False show ?thesis by (simp add: verdict_ok_def)
qed

lemma verdict_ok_accepting:
  "is_accepting P config \<Longrightarrow> verdict_ok ((P, config # rest), visited) True"
  by (auto simp: verdict_ok_def intro: can_accept_self)

lemma verdict_ok_expand:
  assumes "verdict_ok ((P, rest @ successors P config), set_add (config_key config) visited) b"
    and "\<not> is_accepting P config"
  shows "verdict_ok ((P, config # rest), visited) b"
proof (cases b)
  case True
  with assms(1) obtain c where c: "c \<in> set (rest @ successors P config)" "can_accept P c"
    by (auto simp: verdict_ok_def)
  show ?thesis
  proof (cases "c \<in> set rest")
    case True
    with c \<open>b\<close> show ?thesis by (auto simp: verdict_ok_def)
  next
    case False
    with c have "pda_step P config c" by (simp add: pda_step_def)
    from can_accept_step [OF this c(2)] \<open>b\<close> show ?thesis by (auto simp: verdict_ok_def)
  qed
next
  case False
  have "\<not> can_accept P c"
    if "explored P (config # rest) visited" and "c \<in> set (config # rest) \<or> config_key c \<in> set visited"
    for c
  proof -
    from explored_step [OF that(1) assms(2)] assms(1) False
    have all: "\<And>c. c \<in> set (rest @ successors P config) \<or>
        config_key c \<in> set (set_add (config_key config) visited) \<Longrightarrow> \<not> can_accept P c"
      by (auto simp: verdict_ok_def)
    from that(2) have "c \<in> set (rest @ successors P config) \<or>
        config_key c \<in> set (set_add (config_key config) visited)"
      by (auto simp: set_add_def)
    then show ?thesis by (rule all)
  qed
  with False show ?thesis by (simp add: verdict_ok_def)
qed

lemma pda_search_exact:
  assumes "pda_search P queue visited = Some b"
  shows "verdict_ok ((P, queue), visited) b"
  using assms
proof (rule pda_search.raw_induct [where Pa = verdict_ok, rotated], goal_cases)
  case (1 f P queue visited b)
  note IH = 1(1) and body = 1(2)
  show ?case
  proof (cases queue)
    case Nil
    with body show ?thesis by (simp add: verdict_ok_Nil)
  next
    case (Cons config rest)
    show ?thesis
    proof (cases "config_key config \<in> set visited")
      case True
      with body Cons have "f P rest visited = Some b" by (simp add: config_key_def)
      from verdict_ok_skip [OF IH [OF this] True] Cons show ?thesis by simp
    next
      case False
      show ?thesis
      proof (cases "is_accepting P config")
        case True
        with body Cons False have "b = True" by (simp add: config_key_def)
        with verdict_ok_accepting [OF True] Cons show ?thesis by simp
      next
        case na: False
        have "f P (rest @ successors P config) (set_add (config_key config) visited) = Some b"
          using body Cons False na
          by (cases "stack_top config") (simp_all add: config_key_def successors_def)
        from verdict_ok_expand [OF IH [OF this] na] Cons show ?thesis by simp
      qed
    qed
  qed
qed

subsection \<open>A search that does not return\<close>

definition loop_pda :: pda where
  "loop_pda = add_pda_transition (py ''q0'') (py ''q0'') EPS (py ''Z'') [py ''Z'', py ''Z'']
                (add_state (py ''q0'') False True PDA)"

definition loop_config :: "nat \<Rightarrow> PDAConfiguration" where
  "loop_config k = \<lparr>state = py ''q0'', remaining_input = [], stack = replicate (Suc k) (py ''Z'')\<rparr>"

lemma loop_pda_fields:
  "start_state loop_pda = Some (py ''q0'')" "accept_states loop_pda = []"
  "start_stack_symbol loop_pda = py ''Z''"
  "pda_transitions loop_pda =
     [\<lparr>pda_from_state = py ''q0'', pda_to_state = py ''q0'', input_symbol = EPS,
       stack_pop = py ''Z'', stack_push = [py ''Z'', py ''Z'']\<rparr>]"
  by (simp_all add: loop_pda_def add_pda_transition_def add_state_def base_add_transition_def
      PDA_def Let_def)

lemma loop_successors: "successors loop_pda (loop_config k) = [loop_config (Suc k)]"
  by (simp add: successors_def stack_top_def loop_config_def get_applicable_transitions_def
      loop_pda_fields apply_transition_def Let_def EPS_def py_def)

lemma loop_not_accepting: "\<not> is_accepting loop_pda c"
  by (simp add: is_accepting_def loop_pda_fields)

lemma loop_config_inj: "config_key (loop_config j) = config_key (loop_config k) \<longleftrightarrow> j = k"
proof
  assume "config_key (loop_config j) = config_key (loop_config k)"
  then have "length (replicate (Suc j) (py ''Z'')) = length (replicate (Suc k) (py ''Z''))"
    by (simp only: config_key_def loop_config_def PDAConfiguration.simps prod.inject)
  then show "j = k" by simp
qed simp

definition diverging ::
  "(pda \<times> PDAConfiguration list) \<times> (pystr \<times> pystr \<times> pystr list) list \<Rightarrow> bool" where
  "diverging = (\<lambda>((P, queue), visited).
     P = loop_pda \<and>
     (\<exists>k. queue = [loop_config k] \<and> (\<forall>j \<ge> k. config_key (loop_config j) \<notin> set visited)))"

lemma pda_search_loops:
  assumes "pda_search P queue visited = Some b"
  shows "\<not> diverging ((P, queue), visited)"
  using assms
proof (rule pda_search.raw_induct [where Pa = "\<lambda>args b. \<not> diverging args", rotated], goal_cases)
  case (1 f P queue visited b)
  note IH = 1(1) and body = 1(2)
  show ?case
  proof
    assume "diverging ((P, queue), visited)"
    then obtain k where P: "P = loop_pda" and q: "queue = [loop_config k]"
      and fresh: "\<And>j. k \<le> j \<Longrightarrow> config_key (loop_config j) \<notin> set visited"
      by (auto simp: diverging_def)
    let ?V = "set_add (config_key (loop_config k)) visited"
    have top: "stack_top (loop_config k) = Some (py ''Z'')"
      by (simp add: stack_top_def loop_config_def)
    have "f P [loop_config (Suc k)] ?V = Some b"
      using body fresh [of k] loop_not_accepting [of "loop_config k"]
        loop_successors [of k] top
      by (simp add: q P config_key_def successors_def)
    from IH [OF this] have "\<not> diverging ((P, [loop_config (Suc k)]), ?V)" .
    moreover have "config_key (loop_config j) \<notin> set ?V" if "Suc k \<le> j" for j
      using fresh [of j] that by (auto simp: set_add_def loop_config_inj)
    ultimately show False
      unfolding diverging_def P by auto
  qed
qed

lemma pda_path_length: "length (pda_path P k config) \<le> k"
  by (induction k arbitrary: config) (auto split: list.splits)

subsection \<open>The search finds every reachable accepting configuration\<close>

text \<open>
  \<open>clear_path P V d c\<close>: an accepting configuration is \<open>d\<close> steps away from \<open>c\<close>, along
  configurations that are not in \<open>V\<close>.
\<close>

fun clear_path ::
  "pda \<Rightarrow> (pystr \<times> pystr \<times> pystr list) list \<Rightarrow> nat \<Rightarrow> PDAConfiguration \<Rightarrow> bool" where
  "clear_path P V 0 c \<longleftrightarrow> config_key c \<notin> set V \<and> is_accepting P c"
| "clear_path P V (Suc d) c \<longleftrightarrow>
     config_key c \<notin> set V \<and> (\<exists>c' \<in> set (successors P c). clear_path P V d c')"

lemma set_set_add: "set (set_add x V) = insert x (set V)"
  by (auto simp: set_add_def)

lemma clear_path_fresh: "clear_path P V d c \<Longrightarrow> config_key c \<notin> set V"
  by (cases d) auto

lemma clear_path_shrink:
  assumes "clear_path P V d c" and "\<not> is_accepting P h"
  shows "clear_path P (set_add (config_key h) V) d c
       \<or> (\<exists>d' < d. \<exists>s \<in> set (successors P h). clear_path P (set_add (config_key h) V) d' s)"
  using assms(1)
proof (induction d arbitrary: c)
  case 0
  with assms(2) have "config_key c \<noteq> config_key h" by (auto dest: config_key_inj)
  with 0 show ?case by (simp add: set_set_add)
next
  case (Suc d)
  then obtain c' where c': "c' \<in> set (successors P c)" "clear_path P V d c'"
    and fresh: "config_key c \<notin> set V"
    by auto
  from Suc.IH [OF c'(2)] show ?case
  proof
    assume a: "clear_path P (set_add (config_key h) V) d c'"
    show ?thesis
    proof (cases "config_key c = config_key h")
      case True
      then have "c = h" by (rule config_key_inj)
      with a c'(1) show ?thesis by blast
    next
      case False
      with a c'(1) fresh show ?thesis by (auto simp: set_set_add)
    qed
  next
    assume "\<exists>d' < d. \<exists>s \<in> set (successors P h). clear_path P (set_add (config_key h) V) d' s"
    then show ?thesis by (meson less_Suc_eq)
  qed
qed

lemma bfs_finds:
  "i < length queue \<Longrightarrow> clear_path P V d (queue ! i) \<Longrightarrow> pda_search P queue V = Some True"
proof (induction d arbitrary: i queue V rule: less_induct)
  case (less d)
  have later: "pda_search P (rest @ successors P h) (set_add (config_key h) V) = Some True"
    if "d' < d" and "s \<in> set (successors P h)"
      and "clear_path P (set_add (config_key h) V) d' s" for d' s h rest V
  proof -
    from that(2) have "s \<in> set (rest @ successors P h)" by simp
    then obtain j where "j < length (rest @ successors P h)" "(rest @ successors P h) ! j = s"
      by (meson in_set_conv_nth)
    with less.IH [OF that(1), of j "rest @ successors P h"] that(3) show ?thesis by simp
  qed
  from less.prems show ?case
  proof (induction i arbitrary: queue V)
    case 0
    then obtain h rest where q: "queue = h # rest" by (cases queue) auto
    with 0 have cp: "clear_path P V d h" by simp
    then have fresh: "config_key h \<notin> set V" by (rule clear_path_fresh)
    show ?case
    proof (cases "is_accepting P h")
      case True
      with fresh q show ?thesis by (simp add: pda_search_cases)
    next
      case False
      have "\<not> clear_path P (set_add (config_key h) V) d h"
        using clear_path_fresh [of P "set_add (config_key h) V" d h] by (auto simp: set_set_add)
      with clear_path_shrink [OF cp False] obtain d' s
        where "d' < d" "s \<in> set (successors P h)"
          "clear_path P (set_add (config_key h) V) d' s"
        by blast
      from later [OF this] fresh False q show ?thesis by (simp add: pda_search_cases)
    qed
  next
    case (Suc i)
    then obtain h rest where q: "queue = h # rest" by (cases queue) auto
    with Suc.prems have i: "i < length rest" and cp: "clear_path P V d (rest ! i)" by simp_all
    show ?case
    proof (cases "config_key h \<in> set V")
      case True
      with Suc.IH [OF i cp] q show ?thesis by (simp add: pda_search_cases)
    next
      case fresh: False
      show ?thesis
      proof (cases "is_accepting P h")
        case True
        with fresh q show ?thesis by (simp add: pda_search_cases)
      next
        case False
        from clear_path_shrink [OF cp False]
        have "pda_search P (rest @ successors P h) (set_add (config_key h) V) = Some True"
        proof
          assume "clear_path P (set_add (config_key h) V) d (rest ! i)"
          with Suc.IH [of "rest @ successors P h" "set_add (config_key h) V"] i
          show ?thesis by (simp add: nth_append)
        next
          assume "\<exists>d' < d. \<exists>s \<in> set (successors P h).
                    clear_path P (set_add (config_key h) V) d' s"
          with later show ?thesis by blast
        qed
        with fresh False q show ?thesis by (simp add: pda_search_cases)
      qed
    qed
  qed
qed

lemma reach_clear_path:
  "(pda_step P)\<^sup>*\<^sup>* c c' \<Longrightarrow> is_accepting P c' \<Longrightarrow> \<exists>d. clear_path P [] d c"
proof (induction rule: converse_rtranclp_induct)
  case base
  then have "clear_path P [] 0 c'" by simp
  then show ?case ..
next
  case (step y z)
  then obtain d where "clear_path P [] d z" by blast
  with step(1) have "clear_path P [] (Suc d) y" by (auto simp: pda_step_def)
  then show ?case ..
qed

lemma pda_search_complete:
  assumes "can_accept P c"
  shows "pda_search P [c] [] = Some True"
proof -
  from assms obtain c' where "(pda_step P)\<^sup>*\<^sup>* c c'" "is_accepting P c'"
    by (auto simp: can_accept_def)
  from reach_clear_path [OF this] obtain d where "clear_path P [] d c" ..
  with bfs_finds [of 0 "[c]" P "[]" d] show ?thesis by simp
qed

subsection \<open>The search returns when finitely many configurations are reachable\<close>

definition reach :: "pda \<Rightarrow> PDAConfiguration list \<Rightarrow> PDAConfiguration set" where
  "reach P queue = {c'. \<exists>c \<in> set queue. (pda_step P)\<^sup>*\<^sup>* c c'}"

lemma reach_mono: "set q1 \<subseteq> set q2 \<Longrightarrow> reach P q1 \<subseteq> reach P q2"
  by (auto simp: reach_def)

lemma reach_self: "c \<in> set queue \<Longrightarrow> c \<in> reach P queue"
  by (auto simp: reach_def)

lemma reach_expand: "reach P (rest @ successors P h) \<subseteq> reach P (h # rest)"
proof
  fix c' assume "c' \<in> reach P (rest @ successors P h)"
  then obtain c where c: "c \<in> set rest \<or> c \<in> set (successors P h)" "(pda_step P)\<^sup>*\<^sup>* c c'"
    by (auto simp: reach_def)
  from c(1) show "c' \<in> reach P (h # rest)"
  proof
    assume "c \<in> set rest"
    with c(2) show ?thesis by (auto simp: reach_def)
  next
    assume "c \<in> set (successors P h)"
    then have "pda_step P h c" by (simp add: pda_step_def)
    from this c(2) have "(pda_step P)\<^sup>*\<^sup>* h c'" by (rule converse_rtranclp_into_rtranclp)
    then show ?thesis by (auto simp: reach_def)
  qed
qed

lemma reach_Cons_expand: "reach P (h # rest) \<subseteq> insert h (reach P (rest @ successors P h))"
proof
  fix c' assume "c' \<in> reach P (h # rest)"
  then consider "(pda_step P)\<^sup>*\<^sup>* h c'" | "c' \<in> reach P rest"
    by (auto simp: reach_def)
  then show "c' \<in> insert h (reach P (rest @ successors P h))"
  proof cases
    case 1
    then show ?thesis
    proof (cases rule: converse_rtranclpE)
      case base
      then show ?thesis by simp
    next
      case (step y)
      then have "y \<in> set (rest @ successors P h)" by (simp add: pda_step_def)
      with step(2) show ?thesis by (auto simp: reach_def)
    qed
  next
    case 2
    with reach_mono [of rest "rest @ successors P h" P] show ?thesis by auto
  qed
qed

lemma search_returns_bounded:
  "finite (reach P queue) \<Longrightarrow> card (config_key ` reach P queue - set V) \<le> n
     \<Longrightarrow> \<exists>b. pda_search P queue V = Some b"
proof (induction n arbitrary: queue V rule: less_induct)
  case (less n)
  from less.prems show ?case
  proof (induction queue arbitrary: V)
    case Nil
    show ?case by (auto simp: pda_search_Nil)
  next
    case (Cons h rest)
    let ?A = "config_key ` reach P (h # rest) - set V"
    have fin: "finite ?A" using Cons.prems(1) by simp
    show ?case
    proof (cases "config_key h \<in> set V")
      case True
      have sub: "reach P rest \<subseteq> reach P (h # rest)" by (rule reach_mono) auto
      then have "finite (reach P rest)" using Cons.prems(1) by (rule finite_subset)
      moreover have "card (config_key ` reach P rest - set V) \<le> card ?A"
        using sub by (intro card_mono fin) auto
      ultimately have "\<exists>b. pda_search P rest V = Some b"
        using Cons.prems(2) by (intro Cons.IH) auto
      with True show ?thesis by (auto simp: pda_search_cases)
    next
      case fresh: False
      show ?thesis
      proof (cases "is_accepting P h")
        case True
        with fresh show ?thesis by (auto simp: pda_search_cases)
      next
        case False
        let ?q = "rest @ successors P h" and ?V = "set_add (config_key h) V"
        let ?B = "config_key ` reach P ?q - set ?V"
        have f: "finite (reach P ?q)"
          using reach_expand Cons.prems(1) by (rule finite_subset)
        have "config_key h \<in> ?A" using fresh reach_self [of h "h # rest" P] by auto
        moreover have "config_key h \<notin> ?B" by (simp add: set_set_add)
        moreover have "?B \<subseteq> ?A" using reach_expand [of P rest h] by (auto simp: set_set_add)
        ultimately have "?B \<subset> ?A" by blast
        then have "card ?B < card ?A" using fin by (rule psubset_card_mono [rotated])
        with Cons.prems(2) have "card ?B < n" by simp
        from less.IH [OF this f le_refl] have "\<exists>b. pda_search P ?q ?V = Some b" .
        with fresh False show ?thesis by (auto simp: pda_search_cases)
      qed
    qed
  qed
qed

lemma search_returns: "finite (reach P queue) \<Longrightarrow> \<exists>b. pda_search P queue V = Some b"
  by (rule search_returns_bounded [OF _ le_refl])

subsection \<open>A search that answers False has seen only finitely many configurations\<close>

lemma finite_visited: "finite {c. config_key c \<in> set V}"
proof -
  have "inj config_key" by (auto intro: injI config_key_inj)
  then have "finite (config_key -` set V)" by (intro finite_vimageI) simp_all
  then show ?thesis by (simp add: vimage_def)
qed

lemma explored_reach:
  assumes "explored P queue V" and "(pda_step P)\<^sup>*\<^sup>* c c'" and "config_key c \<in> set V"
  shows "config_key c' \<in> set V \<or> c' \<in> reach P queue"
  using assms(2,3)
proof (induction rule: rtranclp_induct)
  case base
  then show ?case by simp
next
  case (step y z)
  from step(3) [OF step(4)] show ?case
  proof
    assume "config_key y \<in> set V"
    with assms(1) step(2) have "config_key z \<in> set V \<or> z \<in> set queue"
      unfolding explored_def by blast
    then show ?thesis by (auto intro: reach_self)
  next
    assume "y \<in> reach P queue"
    with step(2) show ?thesis by (auto simp: reach_def intro: rtranclp.rtrancl_into_rtrancl)
  qed
qed

definition finitely_explored ::
  "(pda \<times> PDAConfiguration list) \<times> (pystr \<times> pystr \<times> pystr list) list \<Rightarrow> bool \<Rightarrow> bool" where
  "finitely_explored = (\<lambda>((P, queue), visited) b.
     \<not> b \<longrightarrow> explored P queue visited \<longrightarrow> finite (reach P queue))"

lemma finitely_explored_skip:
  assumes "finitely_explored ((P, rest), V) b" and "config_key h \<in> set V"
  shows "finitely_explored ((P, h # rest), V) b"
  unfolding finitely_explored_def prod.case
proof (intro impI)
  assume nb: "\<not> b" and ex: "explored P (h # rest) V"
  from explored_skip [OF ex assms(2)] have ex': "explored P rest V" .
  with assms(1) nb have fr: "finite (reach P rest)" by (simp add: finitely_explored_def)
  have "reach P (h # rest) \<subseteq> {c. config_key c \<in> set V} \<union> reach P rest"
  proof
    fix c' assume "c' \<in> reach P (h # rest)"
    then consider "(pda_step P)\<^sup>*\<^sup>* h c'" | "c' \<in> reach P rest" by (auto simp: reach_def)
    then show "c' \<in> {c. config_key c \<in> set V} \<union> reach P rest"
    proof cases
      case 1
      from explored_reach [OF ex' 1 assms(2)] show ?thesis by auto
    next
      case 2
      then show ?thesis by simp
    qed
  qed
  then show "finite (reach P (h # rest))"
    using finite_visited [of V] fr by (meson finite_UnI finite_subset)
qed

lemma finitely_explored_expand:
  assumes "finitely_explored ((P, rest @ successors P h), set_add (config_key h) V) b"
    and "\<not> is_accepting P h"
  shows "finitely_explored ((P, h # rest), V) b"
  unfolding finitely_explored_def prod.case
proof (intro impI)
  assume nb: "\<not> b" and ex: "explored P (h # rest) V"
  from explored_step [OF ex assms(2)] assms(1) nb
  have "finite (reach P (rest @ successors P h))" by (simp add: finitely_explored_def)
  then have "finite (insert h (reach P (rest @ successors P h)))" by simp
  with reach_Cons_expand show "finite (reach P (h # rest))" by (rule finite_subset)
qed

lemma pda_search_False_finite:
  assumes "pda_search P queue visited = Some b"
  shows "finitely_explored ((P, queue), visited) b"
  using assms
proof (rule pda_search.raw_induct [where Pa = finitely_explored, rotated], goal_cases)
  case (1 f P queue visited b)
  note IH = 1(1) and body = 1(2)
  show ?case
  proof (cases queue)
    case Nil
    then show ?thesis by (simp add: finitely_explored_def reach_def)
  next
    case (Cons config rest)
    show ?thesis
    proof (cases "config_key config \<in> set visited")
      case True
      with body Cons have "f P rest visited = Some b" by (simp add: config_key_def)
      from finitely_explored_skip [OF IH [OF this] True] Cons show ?thesis by simp
    next
      case False
      show ?thesis
      proof (cases "is_accepting P config")
        case True
        with body Cons False have "b = True" by (simp add: config_key_def)
        then show ?thesis by (simp add: finitely_explored_def)
      next
        case na: False
        have "f P (rest @ successors P config) (set_add (config_key config) visited) = Some b"
          using body Cons False na
          by (cases "stack_top config") (simp_all add: config_key_def successors_def)
        from finitely_explored_expand [OF IH [OF this] na] Cons show ?thesis by simp
      qed
    qed
  qed
qed

subsection \<open>What \<open>PDA.accepts\<close> returns\<close>

definition accepting_run :: "pda \<Rightarrow> pystr \<Rightarrow> bool" where
  "accepting_run P w \<longleftrightarrow>
     (\<exists>s. start_state P = Some s \<and> can_accept P (initial_config P s w))"

definition reachable_configs :: "pda \<Rightarrow> pystr \<Rightarrow> PDAConfiguration set" where
  "reachable_configs P w =
     (case start_state P of None \<Rightarrow> {} | Some s \<Rightarrow> reach P [initial_config P s w])"

lemma pda_accepts_cases:
  "pda_accepts P w =
     (if accepting_run P w then Some True
      else if finite (reachable_configs P w) then Some False else None)"
proof (cases "start_state P")
  case None
  then show ?thesis
    by (simp add: pda_accepts_def accepting_run_def reachable_configs_def)
next
  case (Some s)
  let ?c = "initial_config P s w"
  have run: "accepting_run P w \<longleftrightarrow> can_accept P ?c" by (simp add: accepting_run_def Some)
  have rc: "reachable_configs P w = reach P [?c]" by (simp add: reachable_configs_def Some)
  have acc: "pda_accepts P w = pda_search P [?c] []" by (simp add: pda_accepts_def Some)
  have exact: "b \<longleftrightarrow> can_accept P ?c" if "pda_search P [?c] [] = Some b" for b
    using pda_search_exact [OF that] by (auto simp: verdict_ok_def explored_def)
  show ?thesis
  proof (cases "can_accept P ?c")
    case True
    from pda_search_complete [OF this] True show ?thesis by (simp add: acc run)
  next
    case False
    show ?thesis
    proof (cases "finite (reach P [?c])")
      case True
      from search_returns [OF this, of "[]"] obtain b where b: "pda_search P [?c] [] = Some b" ..
      from exact [OF b] False have "\<not> b" by simp
      with b True False show ?thesis by (simp add: acc run rc)
    next
      case inf: False
      have "pda_search P [?c] [] = None"
      proof (cases "pda_search P [?c] []")
        case (Some b)
        from exact [OF Some] False have "\<not> b" by simp
        with pda_search_False_finite [OF Some] inf show ?thesis
          by (simp add: finitely_explored_def explored_def)
      qed simp
      with inf False show ?thesis by (simp add: acc run rc)
    qed
  qed
qed

definition ab_pda :: pda where
  "ab_pda = add_pda_transition (py ''q0'') (py ''q1'') (py ''a'') (py ''Z'') [py ''Z'']
              (add_state (py ''q1'') True False (add_state (py ''q0'') False True PDA))"

lemma ab_pda_fields:
  "start_state ab_pda = Some (py ''q0'')" "accept_states ab_pda = [py ''q1'']"
  "start_stack_symbol ab_pda = py ''Z''"
  "pda_transitions ab_pda =
     [\<lparr>pda_from_state = py ''q0'', pda_to_state = py ''q1'', input_symbol = py ''a'',
       stack_pop = py ''Z'', stack_push = [py ''Z'']\<rparr>]"
  by (simp_all add: ab_pda_def add_pda_transition_def add_state_def base_add_transition_def
      PDA_def Let_def set_add_def py_def)

lemma ab_pda_accepts_a: "pda_accepts ab_pda (py ''a'') = Some True"
  unfolding pda_accepts_def ab_pda_fields initial_config_def option.case
  apply (subst pda_search.simps)
  apply (simp add: is_accepting_def stack_top_def current_symbol_def ab_pda_fields
      get_applicable_transitions_def apply_transition_def py_def EPS_def Let_def)
  apply (subst pda_search.simps)
  apply (simp add: is_accepting_def ab_pda_fields py_def set_add_def)
  done

lemma ab_pda_rejects_b: "pda_accepts ab_pda (py ''b'') = Some False"
  unfolding pda_accepts_def ab_pda_fields initial_config_def option.case
  apply (subst pda_search.simps)
  apply (simp add: is_accepting_def stack_top_def current_symbol_def ab_pda_fields
      get_applicable_transitions_def apply_transition_def py_def EPS_def Let_def)
  apply (subst pda_search.simps)
  apply simp
  done

lemma loop_pda_never_returns: "pda_accepts loop_pda [] = None"
proof (cases "pda_accepts loop_pda []")
  case (Some b)
  then have "pda_search loop_pda [loop_config 0] [] = Some b"
    by (simp add: pda_accepts_def loop_pda_fields initial_config_def loop_config_def)
  moreover have "diverging ((loop_pda, [loop_config 0]), [])"
    unfolding diverging_def by (simp add: exI [of _ 0])
  ultimately show ?thesis
    using pda_search_loops by blast
qed simp

text \<open>
  C2, as stated, fails: \<open>PDA.accepts\<close> has no step or frontier bound and no third outcome.
  On the automaton whose only transition is an epsilon move that replaces \<open>Z\<close> by
  \<open>ZZ\<close>, every configuration is new, the queue never empties, and the search on the
  empty input does not return.
\<close>

theorem pda_search_never_returns: "pda_accepts loop_pda [] = None"
  by (rule loop_pda_never_returns)

text \<open>
  C2, amended.  \<open>PDA.accepts\<close> has no bound and no third outcome, and what it does is
  determined by the configurations reachable from the initial one: it returns \<open>True\<close>
  when an accepting configuration is reachable; it returns \<open>False\<close> when none is and
  only finitely many configurations are reachable (in particular when the queue empties,
  and when there is no start state); in the remaining case, no accepting configuration
  among infinitely many reachable ones, it does not return.  The bounded procedure is
  \<open>simulate_step_by_step\<close>: for every automaton, input and \<open>max_steps\<close>, negative
  values included, its trace has at most \<open>max(max_steps, 0) + 1\<close> entries.
\<close>

theorem pda_accepts_characterised:
  "pda_accepts P w =
     (if accepting_run P w then Some True
      else if finite (reachable_configs P w) then Some False else None)
   \<and> length (pda_simulate_step_by_step P w max_steps) \<le> nat max_steps + 1"
  using pda_path_length [of P "nat max_steps"]
  by (simp add: pda_accepts_cases pda_simulate_step_by_step_def split: option.split)

theorem pda_accepts_characterised_witness:
  "pda_accepts ab_pda (py ''a'') = Some True \<and> accepting_run ab_pda (py ''a'')
   \<and> pda_accepts ab_pda (py ''b'') = Some False \<and> \<not> accepting_run ab_pda (py ''b'')
   \<and> finite (reachable_configs ab_pda (py ''b''))
   \<and> pda_accepts loop_pda [] = None \<and> \<not> accepting_run loop_pda []
   \<and> infinite (reachable_configs loop_pda [])
   \<and> length (pda_simulate_step_by_step loop_pda [] 3) \<le> 4
   \<and> length (pda_simulate_step_by_step loop_pda [] (- 1)) \<le> 1"
  using pda_accepts_characterised [of ab_pda "py ''a''" 0]
    pda_accepts_characterised [of ab_pda "py ''b''" 0]
    pda_accepts_characterised [of loop_pda "[]" 3]
    pda_accepts_characterised [of loop_pda "[]" "- 1"]
    ab_pda_accepts_a ab_pda_rejects_b loop_pda_never_returns
  by (auto split: if_splits)

end
